theory Spec2Isabelle
  imports Main
begin

section \<open>Data of the comment tracker\<close>

text \<open>
  The tracker of \<^verbatim>\<open>comment_tracker.py\<close> polls GitLab for the notes of open merge
  requests, keeps a ledger \<^verbatim>\<open>self.tracked_comments\<close> keyed by note id, and posts
  Slack messages. The embedding takes the answers of the GitLab API of one cycle as
  input data, threads the ledger explicitly and returns the outbound calls (Slack posts
  and writes of the ledger file) as a list, in the order the code makes them.
\<close>

subsection \<open>Python values the code works with\<close>

text \<open>
  The two exceptions the reconciliation can raise on well-formed API answers:
  \<^verbatim>\<open>ValueError\<close> from \<^verbatim>\<open>datetime.fromisoformat\<close> on a string it cannot parse, and
  \<^verbatim>\<open>TypeError\<close> from subtracting or ordering an offset-naive and an offset-aware
  \<^verbatim>\<open>datetime\<close>.
\<close>

datatype py_error = ValueError | TypeError

text \<open>
  A \<^verbatim>\<open>datetime\<close> value: offset-naive (wall-clock microseconds) or offset-aware
  (microseconds of the instant in UTC). \<^verbatim>\<open>datetime.now()\<close> is always naive.
\<close>

datatype pydatetime = Naive int | Aware int

text \<open>
  \<^verbatim>\<open>datetime.fromisoformat\<close> belongs to the standard library; it is a parameter of
  the model. \<open>None\<close> stands for the \<^verbatim>\<open>ValueError\<close> it raises.
\<close>

type_synonym isoparser = "string \<Rightarrow> pydatetime option"

text \<open>\<^verbatim>\<open>a - b\<close> on datetimes: a timedelta in microseconds, or \<^verbatim>\<open>TypeError\<close>.\<close>

fun dt_minus :: "pydatetime \<Rightarrow> pydatetime \<Rightarrow> py_error + int" where
  "dt_minus (Naive a) (Naive b) = Inr (a - b)"
| "dt_minus (Aware a) (Aware b) = Inr (a - b)"
| "dt_minus (Naive a) (Aware b) = Inl TypeError"
| "dt_minus (Aware a) (Naive b) = Inl TypeError"

text \<open>\<^verbatim>\<open>a > b\<close> on datetimes.\<close>

fun dt_greater :: "pydatetime \<Rightarrow> pydatetime \<Rightarrow> py_error + bool" where
  "dt_greater (Naive a) (Naive b) = Inr (b < a)"
| "dt_greater (Aware a) (Aware b) = Inr (b < a)"
| "dt_greater (Naive a) (Aware b) = Inl TypeError"
| "dt_greater (Aware a) (Naive b) = Inl TypeError"

text \<open>\<^verbatim>\<open>timedelta(hours=24)\<close> in microseconds.\<close>

definition hours24 :: int where
  "hours24 = 24 * 3600 * 1000000"

text \<open>\<^verbatim>\<open>s.replace('Z', '+00:00')\<close>: every \<^verbatim>\<open>Z\<close> of the string is replaced.\<close>

definition replace_Z :: "string \<Rightarrow> string" where
  "replace_Z s = concat (map (\<lambda>c. if c = CHR ''Z'' then ''+00:00'' else [c]) s)"

text \<open>\<^verbatim>\<open>datetime.fromisoformat(s.replace('Z', '+00:00'))\<close>.\<close>

definition parse_created_at :: "isoparser \<Rightarrow> string \<Rightarrow> py_error + pydatetime" where
  "parse_created_at fromiso s =
     (case fromiso (replace_Z s) of None \<Rightarrow> Inl ValueError | Some d \<Rightarrow> Inr d)"

subsection \<open>Answers of the GitLab API\<close>

text \<open>
  A note of a discussion: \<^verbatim>\<open>note['id']\<close>, \<^verbatim>\<open>note.get('system', False)\<close>,
  \<^verbatim>\<open>note['author']['username']\<close>, \<^verbatim>\<open>note['created_at']\<close>, \<^verbatim>\<open>note['body']\<close>.
  The ledger is keyed by \<^verbatim>\<open>str(note['id'])\<close>; \<^verbatim>\<open>str\<close> is injective on integers,
  so the model keys it by the integer.
\<close>

record gitlab_note =
  n_id :: int
  n_system :: bool
  n_author :: string
  n_created_at :: string
  n_body :: string

type_synonym discussion = "gitlab_note list"

text \<open>
  A merge request as \<^verbatim>\<open>get_merge_requests\<close> lists it (state \<^verbatim>\<open>opened\<close> only),
  with the answers of \<^verbatim>\<open>get_merge_request_details\<close> and \<^verbatim>\<open>get_discussions\<close> for it.
  \<open>mr_details\<close> is \<open>None\<close> when the details call fails (or its answer is falsy), else
  the usernames under \<^verbatim>\<open>'reviewers'\<close> (the empty list when the key is absent or empty).
\<close>

record merge_request =
  mr_iid :: int
  mr_author :: string
  mr_title :: string
  mr_details :: "string list option"
  mr_discussions :: "discussion list"

record project =
  p_id :: int
  p_path :: string
  p_mrs :: "merge_request list"

subsection \<open>The ledger\<close>

text \<open>
  One entry of \<^verbatim>\<open>self.tracked_comments\<close>. The key \<^verbatim>\<open>"responder"\<close> is absent until a
  response is detected.
\<close>

record comment_record =
  cr_project_id :: int
  cr_mr_iid :: int
  cr_author :: string
  cr_created_at :: string
  cr_notified_at :: string
  cr_responded :: bool
  cr_followup_sent :: bool
  cr_responder :: "string option"

type_synonym ledger = "int \<rightharpoonup> comment_record"

subsection \<open>Configuration and outbound calls\<close>

record config =
  tracked_users :: "string list"
  slack_user_map :: "string \<rightharpoonup> string"

text \<open>
  The three message templates, with the values they interpolate. The URL
  \<^verbatim>\<open>{gitlab_url}/{path}/-/merge_requests/{iid}#note_{id}\<close> is kept as its project
  path, merge request iid and note id.
\<close>

datatype message =
    New_comment string string string int int string
  | Reminder string string string string int int string
  | Author_responded string string string int int

text \<open>
  An outbound call: a POST to \<^verbatim>\<open>chat.postMessage\<close> (channel, text), or a write of
  the ledger to the database file by \<^verbatim>\<open>save_tracked_comments\<close>. Both callers ignore
  the outcome of the call.
\<close>

datatype effect = Slack_post string message | Db_write ledger

fun is_post :: "effect \<Rightarrow> bool" where
  "is_post (Slack_post u m) = True"
| "is_post (Db_write L) = False"

fun is_response_post :: "effect \<Rightarrow> bool" where
  "is_response_post (Slack_post u (Author_responded p t r i k)) = True"
| "is_response_post e = False"

fun is_comment_post :: "effect \<Rightarrow> bool" where
  "is_comment_post (Slack_post u (New_comment p t a i k b)) = True"
| "is_comment_post (Slack_post u (Reminder p t a c i k b)) = True"
| "is_comment_post e = False"

fun is_reminder_post :: "effect \<Rightarrow> bool" where
  "is_reminder_post (Slack_post u (Reminder p t a c i k b)) = True"
| "is_reminder_post e = False"

section \<open>The operations\<close>

definition should_track_user :: "config \<Rightarrow> string \<Rightarrow> bool" where
  "should_track_user cfg username =
     (if tracked_users cfg = [] then True else username \<in> set (tracked_users cfg))"

definition get_slack_user_id :: "config \<Rightarrow> string \<Rightarrow> string option" where
  "get_slack_user_id cfg gitlab_username = slack_user_map cfg gitlab_username"

text \<open>Python's truth value of an optional string: \<^verbatim>\<open>None\<close> and \<^verbatim>\<open>''\<close> are false.\<close>

definition truthy :: "string option \<Rightarrow> bool" where
  "truthy u = (case u of None \<Rightarrow> False | Some s \<Rightarrow> s \<noteq> [])"

text \<open>
  \<^verbatim>\<open>send_slack_message\<close>: nothing is posted without a user id; else one POST, whose
  failure is logged and reported as \<^verbatim>\<open>False\<close>, which no caller reads.
\<close>

definition send_slack_message :: "string option \<Rightarrow> message \<Rightarrow> effect list" where
  "send_slack_message user_id msg =
     (case user_id of None \<Rightarrow> [] | Some u \<Rightarrow> if u = [] then [] else [Slack_post u msg])"

definition format_comment_notification ::
    "project \<Rightarrow> merge_request \<Rightarrow> gitlab_note \<Rightarrow> bool \<Rightarrow> message" where
  "format_comment_notification proj mr comment is_followup =
     (if is_followup
      then Reminder (p_path proj) (mr_title mr) (n_author comment) (n_created_at comment)
             (mr_iid mr) (n_id comment) (n_body comment)
      else New_comment (p_path proj) (mr_title mr) (n_author comment)
             (mr_iid mr) (n_id comment) (n_body comment))"

definition save_tracked_comments :: "ledger \<Rightarrow> effect list" where
  "save_tracked_comments L = [Db_write L]"

subsection \<open>Loops that an exception leaves\<close>

text \<open>
  A \<^verbatim>\<open>for\<close> loop whose body may raise: the first exception ends the loop, with the
  state and the outbound calls made so far.
\<close>

fun for_each ::
    "('a \<Rightarrow> 's \<Rightarrow> py_error option \<times> 's \<times> effect list) \<Rightarrow> 'a list \<Rightarrow> 's \<Rightarrow>
     py_error option \<times> 's \<times> effect list" where
  "for_each body [] s = (None, s, [])"
| "for_each body (x # xs) s =
     (case body x s of
        (Some e, s1, out1) \<Rightarrow> (Some e, s1, out1)
      | (None, s1, out1) \<Rightarrow>
          (case for_each body xs s1 of (err, s2, out2) \<Rightarrow> (err, s2, out1 @ out2)))"

subsection \<open>The body of \<^verbatim>\<open>check_for_new_comments\<close>, step by step\<close>

text \<open>Lines 255-267: a note id absent from the ledger gets a fresh record.\<close>

definition new_record :: "string \<Rightarrow> project \<Rightarrow> merge_request \<Rightarrow> gitlab_note \<Rightarrow> comment_record" where
  "new_record current_time proj mr n =
     \<lparr> cr_project_id = p_id proj, cr_mr_iid = mr_iid mr, cr_author = n_author n,
       cr_created_at = n_created_at n, cr_notified_at = current_time,
       cr_responded = False, cr_followup_sent = False, cr_responder = None \<rparr>"

definition new_comment_check ::
    "string \<Rightarrow> project \<Rightarrow> merge_request \<Rightarrow> gitlab_note \<Rightarrow> ledger \<Rightarrow> bool \<times> ledger" where
  "new_comment_check current_time proj mr n L =
     (case L (n_id n) of
        None \<Rightarrow> (True, L(n_id n \<mapsto> new_record current_time proj mr n))
      | Some r \<Rightarrow> (False, L))"

text \<open>
  Lines 269-279: the follow-up check. The stored \<^verbatim>\<open>created_at\<close> is parsed only for a
  record that is neither responded nor followed up; \<open>now\<close> is the naive
  \<^verbatim>\<open>datetime.now()\<close> in microseconds.
\<close>

definition followup_check ::
    "isoparser \<Rightarrow> int \<Rightarrow> int \<Rightarrow> ledger \<Rightarrow> py_error + (bool \<times> ledger)" where
  "followup_check fromiso now k L =
     (case L k of
        None \<Rightarrow> Inr (False, L)
      | Some r \<Rightarrow>
          if \<not> cr_responded r \<and> \<not> cr_followup_sent r then
            (case parse_created_at fromiso (cr_created_at r) of
               Inl e \<Rightarrow> Inl e
             | Inr created \<Rightarrow>
                 (case dt_minus (Naive now) created of
                    Inl e \<Rightarrow> Inl e
                  | Inr elapsed \<Rightarrow>
                      if hours24 < elapsed
                      then Inr (True, L(k \<mapsto> r\<lparr>cr_followup_sent := True\<rparr>))
                      else Inr (False, L)))
          else Inr (False, L))"

text \<open>
  Lines 300-315: the notification of the reviewer, made inside the branch that marks the
  record responded.
\<close>

definition notify_reviewer ::
    "config \<Rightarrow> project \<Rightarrow> merge_request \<Rightarrow> string set \<Rightarrow> gitlab_note \<Rightarrow> gitlab_note \<Rightarrow> effect list" where
  "notify_reviewer cfg proj mr reviewers n response_note =
     (if n_author response_note = mr_author mr \<and> n_author n \<in> reviewers
         \<and> should_track_user cfg (n_author n)
      then (let slack_user = get_slack_user_id cfg (n_author n) in
            if truthy slack_user
            then send_slack_message slack_user
                   (Author_responded (p_path proj) (mr_title mr) (n_author response_note)
                      (mr_iid mr) (n_id response_note))
            else [])
      else [])"

text \<open>
  Lines 282-298: the loop over the notes of the same discussion. Both timestamps are
  parsed for every non-system candidate, before the condition is looked at; the
  conjunction is evaluated from the left, so the datetimes are compared only when the
  authors differ. An exception leaves the ledger as it is at that moment.
\<close>

fun response_scan ::
    "isoparser \<Rightarrow> config \<Rightarrow> project \<Rightarrow> merge_request \<Rightarrow> string set \<Rightarrow> gitlab_note \<Rightarrow>
     gitlab_note list \<Rightarrow> ledger \<Rightarrow> py_error option \<times> ledger \<times> effect list" where
  "response_scan fromiso cfg proj mr reviewers n [] L = (None, L, [])"
| "response_scan fromiso cfg proj mr reviewers n (c # cs) L =
     (if n_system c then response_scan fromiso cfg proj mr reviewers n cs L
      else
        case parse_created_at fromiso (n_created_at c) of
          Inl e \<Rightarrow> (Some e, L, [])
        | Inr response_created_at \<Rightarrow>
            (case parse_created_at fromiso (n_created_at n) of
               Inl e \<Rightarrow> (Some e, L, [])
             | Inr note_created_at \<Rightarrow>
                 if n_author c \<noteq> n_author n then
                   (case dt_greater response_created_at note_created_at of
                      Inl e \<Rightarrow> (Some e, L, [])
                    | Inr later \<Rightarrow>
                        (case L (n_id n) of
                           None \<Rightarrow> response_scan fromiso cfg proj mr reviewers n cs L
                         | Some r \<Rightarrow>
                             if later \<and> \<not> cr_responded r then
                               (case response_scan fromiso cfg proj mr reviewers n cs
                                       (L(n_id n \<mapsto>
                                          r\<lparr>cr_responded := True,
                                            cr_responder := Some (n_author c)\<rparr>)) of
                                  (err, L', out) \<Rightarrow>
                                    (err, L', notify_reviewer cfg proj mr reviewers n c @ out))
                             else response_scan fromiso cfg proj mr reviewers n cs L))
                 else response_scan fromiso cfg proj mr reviewers n cs L))"

text \<open>Lines 317-326: the notification of the merge request's author.\<close>

definition notify_mr_author ::
    "config \<Rightarrow> project \<Rightarrow> merge_request \<Rightarrow> gitlab_note \<Rightarrow> bool \<Rightarrow> bool \<Rightarrow> effect list" where
  "notify_mr_author cfg proj mr n is_new_comment needs_followup =
     (if is_new_comment \<or> needs_followup then
        (if n_author n \<noteq> mr_author mr \<and> should_track_user cfg (mr_author mr) then
           (let slack_user = get_slack_user_id cfg (mr_author mr) in
            if truthy slack_user
            then send_slack_message slack_user
                   (format_comment_notification proj mr n needs_followup)
            else [])
         else [])
      else [])"

text \<open>
  Lines 240-326: one iteration of the inner loop, for note \<open>n\<close> of discussion \<open>d\<close>.
  The state of the iteration is the reviewer set of the merge request and the ledger.
\<close>

definition process_note ::
    "isoparser \<Rightarrow> config \<Rightarrow> string \<Rightarrow> int \<Rightarrow> project \<Rightarrow> merge_request \<Rightarrow> discussion \<Rightarrow>
     gitlab_note \<Rightarrow> string set \<times> ledger \<Rightarrow> py_error option \<times> (string set \<times> ledger) \<times> effect list" where
  "process_note fromiso cfg current_time now proj mr d n st =
     (case st of (reviewers, L) \<Rightarrow>
      if n_system n then (None, (reviewers, L), [])
      else
        let reviewers' = (if n_author n \<noteq> mr_author mr
                          then insert (n_author n) reviewers else reviewers) in
        if \<not> should_track_user cfg (n_author n) then (None, (reviewers', L), [])
        else
          case new_comment_check current_time proj mr n L of
            (is_new_comment, L1) \<Rightarrow>
              (case followup_check fromiso now (n_id n) L1 of
                 Inl e \<Rightarrow> (Some e, (reviewers', L1), [])
               | Inr (needs_followup, L2) \<Rightarrow>
                   (case response_scan fromiso cfg proj mr reviewers' n d L2 of
                      (Some e, L3, out) \<Rightarrow> (Some e, (reviewers', L3), out)
                    | (None, L3, out) \<Rightarrow>
                        (None, (reviewers', L3),
                         out @ notify_mr_author cfg proj mr n is_new_comment needs_followup))))"

text \<open>
  Lines 238-239: the two loops over the discussions of a merge request and the notes of
  each; the body of the inner loop gets the whole discussion, which the response scan
  reads.
\<close>

definition process_discussions ::
    "isoparser \<Rightarrow> config \<Rightarrow> string \<Rightarrow> int \<Rightarrow> project \<Rightarrow> merge_request \<Rightarrow>
     discussion list \<Rightarrow> string set \<times> ledger \<Rightarrow> py_error option \<times> (string set \<times> ledger) \<times> effect list" where
  "process_discussions fromiso cfg current_time now proj mr discussions st =
     for_each (\<lambda>d. for_each (process_note fromiso cfg current_time now proj mr d) d)
       discussions st"

text \<open>
  Lines 223-329: one merge request. Without details it is skipped, and nothing is
  saved; else the reviewer set starts from the declared reviewers, the discussions are
  processed and the ledger is saved, unless an exception has left the function.
\<close>

definition process_mr ::
    "isoparser \<Rightarrow> config \<Rightarrow> string \<Rightarrow> int \<Rightarrow> project \<Rightarrow> merge_request \<Rightarrow> ledger \<Rightarrow>
     py_error option \<times> ledger \<times> effect list" where
  "process_mr fromiso cfg current_time now proj mr L =
     (case mr_details mr of
        None \<Rightarrow> (None, L, [])
      | Some declared \<Rightarrow>
          (case process_discussions fromiso cfg current_time now proj mr (mr_discussions mr)
                  (set declared, L) of
             (Some e, (reviewers, L1), out) \<Rightarrow> (Some e, L1, out)
           | (None, (reviewers, L1), out) \<Rightarrow> (None, L1, out @ save_tracked_comments L1)))"

text \<open>
  \<^verbatim>\<open>check_for_new_comments\<close>: the loops over the projects and their open merge
  requests. \<open>current_time\<close> is \<^verbatim>\<open>datetime.now().isoformat()\<close>, read once at the
  start; \<open>now\<close> is the value of the later calls of \<^verbatim>\<open>datetime.now()\<close>, taken as
  one instant for the cycle. The result is the exception that left the function, if
  any, the ledger in memory, and the outbound calls made.
\<close>

definition check_for_new_comments ::
    "isoparser \<Rightarrow> config \<Rightarrow> string \<Rightarrow> int \<Rightarrow> project list \<Rightarrow> ledger \<Rightarrow>
     py_error option \<times> ledger \<times> effect list" where
  "check_for_new_comments fromiso cfg current_time now projects L =
     for_each (\<lambda>proj. for_each (process_mr fromiso cfg current_time now proj) (p_mrs proj))
       projects L"

text \<open>
  \<^verbatim>\<open>run\<close>: the scheduler loop, over the cycles that start before the process is
  interrupted. A cycle is its two clock readings and the API answers. An exception of
  a cycle is logged and the loop goes on with the ledger as the cycle left it in memory.
\<close>

type_synonym cycle = "string \<times> int \<times> project list"

fun run :: "isoparser \<Rightarrow> config \<Rightarrow> cycle list \<Rightarrow> ledger \<Rightarrow> ledger \<times> effect list" where
  "run fromiso cfg [] L = (L, [])"
| "run fromiso cfg ((current_time, now, projects) # cycles) L =
     (case check_for_new_comments fromiso cfg current_time now projects L of
        (err, L1, out1) \<Rightarrow>
          (case run fromiso cfg cycles L1 of (L2, out2) \<Rightarrow> (L2, out1 @ out2)))"

section \<open>Notions the properties are stated with\<close>

text \<open>
  A candidate \<open>c\<close> of the discussion is a qualifying response to note \<open>n\<close>: not a
  system note, by another author, and with a timestamp that the code finds strictly
  later (both timestamps parse and can be compared).
\<close>

definition qualifies :: "isoparser \<Rightarrow> gitlab_note \<Rightarrow> gitlab_note \<Rightarrow> bool" where
  "qualifies fromiso n c =
     (\<not> n_system c \<and> n_author c \<noteq> n_author n \<and>
      (case parse_created_at fromiso (n_created_at c) of
         Inl e \<Rightarrow> False
       | Inr a \<Rightarrow> (case parse_created_at fromiso (n_created_at n) of
                    Inl e \<Rightarrow> False
                  | Inr b \<Rightarrow> dt_greater a b = Inr True)))"

text \<open>
  What a later version \<open>r'\<close> of a record keeps of \<open>r\<close>: the fields written at
  creation, a responded flag once set together with its responder, and a follow-up flag
  once set.
\<close>

definition keeps :: "comment_record \<Rightarrow> comment_record \<Rightarrow> bool" where
  "keeps r r' =
     (cr_project_id r' = cr_project_id r \<and> cr_mr_iid r' = cr_mr_iid r \<and>
      cr_author r' = cr_author r \<and> cr_created_at r' = cr_created_at r \<and>
      cr_notified_at r' = cr_notified_at r \<and>
      (cr_responded r \<longrightarrow> cr_responded r' \<and> cr_responder r' = cr_responder r) \<and>
      (cr_followup_sent r \<longrightarrow> cr_followup_sent r'))"

definition grows :: "ledger \<Rightarrow> ledger \<Rightarrow> bool" where
  "grows L L' = (\<forall>k r. L k = Some r \<longrightarrow> (\<exists>r'. L' k = Some r' \<and> keeps r r'))"

text \<open>A write of the ledger file hands over a ledger that keeps the records of \<open>L\<close>.\<close>

fun write_keeps :: "ledger \<Rightarrow> effect \<Rightarrow> bool" where
  "write_keeps L (Db_write W) = grows L W"
| "write_keeps L (Slack_post u m) = True"

text \<open>The ids of the notes that a cycle fetches.\<close>

definition mr_note_ids :: "merge_request \<Rightarrow> int set" where
  "mr_note_ids mr = set (map n_id (concat (mr_discussions mr)))"

definition fetched_ids :: "project list \<Rightarrow> int set" where
  "fetched_ids projects = (\<Union>proj \<in> set projects. \<Union>mr \<in> set (p_mrs proj). mr_note_ids mr)"

text \<open>The note id that a message about a comment carries in its URL.\<close>

fun comment_post_id :: "effect \<Rightarrow> int option" where
  "comment_post_id (Slack_post u (New_comment p t a i k b)) = Some k"
| "comment_post_id (Slack_post u (Reminder p t a c i k b)) = Some k"
| "comment_post_id e = None"

text \<open>
  The reviewer set in the words of the specification: the declared reviewers and every
  note author, over all discussions of the merge request, who is not its author.
\<close>

definition spec_reviewer_set :: "merge_request \<Rightarrow> string list \<Rightarrow> string set" where
  "spec_reviewer_set mr declared =
     set declared \<union>
     set (map n_author (filter (\<lambda>n. n_author n \<noteq> mr_author mr) (concat (mr_discussions mr))))"

text \<open>The authors that the scan of the notes \<open>ns\<close> adds to the reviewer set.\<close>

definition scanned_authors :: "merge_request \<Rightarrow> gitlab_note list \<Rightarrow> string set" where
  "scanned_authors mr ns =
     set (map n_author (filter (\<lambda>n. \<not> n_system n \<and> n_author n \<noteq> mr_author mr) ns))"

subsection \<open>Example data\<close>

text \<open>
  The values of \<^verbatim>\<open>datetime.fromisoformat\<close> on the timestamps of the examples, in
  microseconds since 1970-01-01T00:00:00; every other string the examples use is one
  that \<^verbatim>\<open>fromisoformat\<close> rejects.
\<close>

definition ex_fromiso :: isoparser where
  "ex_fromiso s =
     (if s = ''2023-04-01T14:30:45'' then Some (Naive 1680359445000000)
      else if s = ''2023-04-01T14:30:45.900000'' then Some (Naive 1680359445900000)
      else if s = ''2023-04-01T15:00:00'' then Some (Naive 1680361200000000)
      else if s = ''2023-04-01T14:30:45+00:00'' then Some (Aware 1680359445000000)
      else None)"

definition ex_cfg :: config where
  "ex_cfg = \<lparr> tracked_users = [],
             slack_user_map = [''author1'' \<mapsto> ''U1'', ''reviewer1'' \<mapsto> ''U2''] \<rparr>"

text \<open>The same configuration with an allowlist that leaves \<^verbatim>\<open>author1\<close> out.\<close>

definition ex_cfg_allow :: config where
  "ex_cfg_allow = \<lparr> tracked_users = [''reviewer1''],
             slack_user_map = [''author1'' \<mapsto> ''U1'', ''reviewer1'' \<mapsto> ''U2''] \<rparr>"

definition ex_note :: "int \<Rightarrow> string \<Rightarrow> string \<Rightarrow> gitlab_note" where
  "ex_note k author ts =
     \<lparr> n_id = k, n_system = False, n_author = author, n_created_at = ts,
       n_body = ''The authentication flow is broken.'' \<rparr>"

definition ex_mr :: "discussion list \<Rightarrow> merge_request" where
  "ex_mr ds = \<lparr> mr_iid = 123, mr_author = ''author1'', mr_title = ''Fix authentication bug'',
       mr_details = Some [], mr_discussions = ds \<rparr>"

definition ex_project :: "discussion list \<Rightarrow> project" where
  "ex_project ds = \<lparr> p_id = 12345, p_path = ''group/project-name'', p_mrs = [ex_mr ds] \<rparr>"

text \<open>One hour and twenty-five hours after the first timestamp, as naive datetimes.\<close>

definition now_1h :: int where
  "now_1h = 1680363045000000"

definition now_25h :: int where
  "now_25h = 1680449445000000"

text \<open>A record as the first cycle of the examples leaves it in the ledger.\<close>

definition ex_record :: comment_record where
  "ex_record =
     \<lparr> cr_project_id = 12345, cr_mr_iid = 123, cr_author = ''reviewer1'',
       cr_created_at = ''2023-04-01T14:30:45'', cr_notified_at = ''2023-04-01T15:30:45'',
       cr_responded = False, cr_followup_sent = False, cr_responder = None \<rparr>"

text \<open>
  The follow-up flag of the record \<open>k\<close> is set between the ledgers \<open>L\<close> and
  \<open>L'\<close>: not set (or no record) before, set after.
\<close>

definition followup_marked :: "ledger \<Rightarrow> ledger \<Rightarrow> int \<Rightarrow> bool" where
  "followup_marked L L' k =
     ((case L k of None \<Rightarrow> True | Some r \<Rightarrow> \<not> cr_followup_sent r) \<and>
      (case L' k of None \<Rightarrow> False | Some r' \<Rightarrow> cr_followup_sent r'))"

text \<open>The record \<open>k\<close> is marked responded in the ledger.\<close>

definition is_responded :: "ledger \<Rightarrow> int \<Rightarrow> bool" where
  "is_responded L k = (case L k of None \<Rightarrow> False | Some r \<Rightarrow> cr_responded r)"

text \<open>
  Two discussions of the example merge request: the comment of \<^verbatim>\<open>reviewer1\<close> with the
  answer of the merge request's author, and a comment of \<^verbatim>\<open>reviewer2\<close>.
\<close>

definition ex_thread1 :: discussion where
  "ex_thread1 = [ex_note 456789 ''reviewer1'' ''2023-04-01T14:30:45'',
                 ex_note 456790 ''author1'' ''2023-04-01T15:00:00'']"

definition ex_thread2 :: discussion where
  "ex_thread2 = [ex_note 456791 ''reviewer2'' ''2023-04-01T15:00:00'']"

lemmas ex_defs =
  ex_fromiso_def ex_cfg_def ex_cfg_allow_def ex_note_def ex_mr_def ex_project_def
  now_1h_def now_25h_def ex_thread1_def ex_thread2_def

lemmas step_defs =
  check_for_new_comments_def process_mr_def process_discussions_def process_note_def
  should_track_user_def new_comment_check_def followup_check_def parse_created_at_def
  replace_Z_def new_record_def hours24_def notify_mr_author_def notify_reviewer_def
  get_slack_user_id_def truthy_def send_slack_message_def format_comment_notification_def
  save_tracked_comments_def

section \<open>Lemmas\<close>

subsection \<open>Loops\<close>

lemma for_each_rel:
  assumes refl: "\<And>s. R s s"
      and trans: "\<And>s s' s''. R s s' \<Longrightarrow> R s' s'' \<Longrightarrow> R s s''"
      and body: "\<forall>x \<in> set xs. \<forall>s e s' out. body x s = (e, s', out) \<longrightarrow> R s s'"
      and res: "for_each body xs s = (err, s', out)"
  shows "R s s'"
  using body res
proof (induction xs arbitrary: s err s' out)
  case Nil
  then show ?case by (simp add: refl)
next
  case (Cons x xs)
  obtain e1 s1 o1 where b: "body x s = (e1, s1, o1)" by (cases "body x s") auto
  have r1: "R s s1" using Cons.prems(1) b by auto
  have rest: "\<forall>x \<in> set xs. \<forall>s e s' out. body x s = (e, s', out) \<longrightarrow> R s s'"
    using Cons.prems(1) by simp
  show ?case
  proof (cases e1)
    case None
    obtain e2 s2 o2 where f: "for_each body xs s1 = (e2, s2, o2)"
      by (cases "for_each body xs s1") auto
    have "R s1 s2" by (rule Cons.IH[OF rest f])
    with r1 b None f Cons.prems(2) show ?thesis by (auto intro: trans)
  next
    case (Some e)
    with r1 b Cons.prems(2) show ?thesis by simp
  qed
qed

lemma for_each_effects:
  assumes body: "\<forall>x \<in> set xs. \<forall>s e s' out. body x s = (e, s', out) \<longrightarrow> (\<forall>ef \<in> set out. P ef)"
      and res: "for_each body xs s = (err, s', out)"
  shows "\<forall>ef \<in> set out. P ef"
  using body res
proof (induction xs arbitrary: s err s' out)
  case Nil
  then show ?case by simp
next
  case (Cons x xs)
  obtain e1 s1 o1 where b: "body x s = (e1, s1, o1)" by (cases "body x s") auto
  have p1: "\<forall>ef \<in> set o1. P ef" using Cons.prems(1) b by auto
  have rest: "\<forall>x \<in> set xs. \<forall>s e s' out. body x s = (e, s', out) \<longrightarrow> (\<forall>ef \<in> set out. P ef)"
    using Cons.prems(1) by simp
  show ?case
  proof (cases e1)
    case None
    obtain e2 s2 o2 where f: "for_each body xs s1 = (e2, s2, o2)"
      by (cases "for_each body xs s1") auto
    have "\<forall>ef \<in> set o2. P ef" by (rule Cons.IH[OF rest f])
    with p1 b None f Cons.prems(2) show ?thesis by auto
  next
    case (Some e)
    with p1 b Cons.prems(2) show ?thesis by simp
  qed
qed


subsection \<open>The response scan\<close>

lemma response_scan_other:
  "response_scan fromiso cfg proj mr revs n cs L = (err, L', out) \<Longrightarrow> k \<noteq> n_id n \<Longrightarrow> L' k = L k"
proof (induction cs arbitrary: L err L' out)
  case Nil
  then show ?case by simp
next
  case (Cons c cs)
  from Cons.prems Cons.IH show ?case
    by (fastforce split: sum.splits option.splits prod.splits if_splits)
qed

lemma response_scan_absent:
  "L (n_id n) = None \<Longrightarrow> snd (response_scan fromiso cfg proj mr revs n cs L) = (L, [])"
  by (induction cs arbitrary: L)
     (auto split: sum.splits option.splits prod.splits)

lemma response_scan_responded:
  "L (n_id n) = Some r \<Longrightarrow> cr_responded r \<Longrightarrow>
   snd (response_scan fromiso cfg proj mr revs n cs L) = (L, [])"
  by (induction cs arbitrary: L)
     (auto split: sum.splits option.splits prod.splits)

lemma response_scan_first:
  "L (n_id n) = Some r \<Longrightarrow> \<not> cr_responded r \<Longrightarrow>
   fst (response_scan fromiso cfg proj mr revs n cs L) = None \<Longrightarrow>
   snd (response_scan fromiso cfg proj mr revs n cs L) =
     (case find (qualifies fromiso n) cs of
        None \<Rightarrow> (L, [])
      | Some c \<Rightarrow> (L(n_id n \<mapsto> r\<lparr>cr_responded := True, cr_responder := Some (n_author c)\<rparr>),
                   notify_reviewer cfg proj mr revs n c))"
proof (induction cs arbitrary: L)
  case Nil
  then show ?case by simp
next
  case (Cons c cs)
  show ?case
  proof (cases "qualifies fromiso n c")
    case True
    let ?L = "L(n_id n \<mapsto> r\<lparr>cr_responded := True, cr_responder := Some (n_author c)\<rparr>)"
    have "snd (response_scan fromiso cfg proj mr revs n cs ?L) = (?L, [])"
      by (rule response_scan_responded[where r="r\<lparr>cr_responded := True, cr_responder := Some (n_author c)\<rparr>"]) simp_all
    with True Cons.prems show ?thesis
      by (auto simp: qualifies_def split: sum.splits prod.splits)
  next
    case False
    with Cons show ?thesis
      by (auto simp: qualifies_def split: sum.splits option.splits prod.splits if_splits)
  qed
qed


lemma response_scan_shape:
  "response_scan fromiso cfg proj mr revs n cs L = (err, L', out) \<Longrightarrow>
   L (n_id n) = Some r \<Longrightarrow> \<not> cr_responded r \<Longrightarrow>
   (L' = L \<and> out = []) \<or>
   (\<exists>c \<in> set cs. qualifies fromiso n c \<and>
      L' = L(n_id n \<mapsto> r\<lparr>cr_responded := True, cr_responder := Some (n_author c)\<rparr>) \<and>
      out = notify_reviewer cfg proj mr revs n c)"
proof (induction cs arbitrary: err L' out)
  case Nil
  then show ?case by simp
next
  case (Cons c cs)
  show ?case
  proof (cases "qualifies fromiso n c")
    case True
    let ?L = "L(n_id n \<mapsto> r\<lparr>cr_responded := True, cr_responder := Some (n_author c)\<rparr>)"
    have "snd (response_scan fromiso cfg proj mr revs n cs ?L) = (?L, [])"
      by (rule response_scan_responded[where r="r\<lparr>cr_responded := True, cr_responder := Some (n_author c)\<rparr>"]) simp_all
    with True Cons.prems show ?thesis
      by (auto simp: qualifies_def split: sum.splits prod.splits)
  next
    case False
    with Cons.prems have "response_scan fromiso cfg proj mr revs n cs L = (err, L', out)
        \<or> (L' = L \<and> out = [])"
      by (auto simp: qualifies_def split: sum.splits option.splits prod.splits if_splits)
    with Cons.IH Cons.prems(2,3) show ?thesis by auto
  qed
qed

subsection \<open>Records are kept\<close>

lemma keeps_refl: "keeps r r"
  by (simp add: keeps_def)

lemma keeps_trans: "keeps r r' \<Longrightarrow> keeps r' r'' \<Longrightarrow> keeps r r''"
  by (auto simp: keeps_def)

lemma grows_refl: "grows L L"
  by (auto simp: grows_def keeps_refl)

lemma grows_trans: "grows L L' \<Longrightarrow> grows L' L'' \<Longrightarrow> grows L L''"
  unfolding grows_def by (meson keeps_trans)

lemma grows_upd: "L k = Some r \<Longrightarrow> keeps r r' \<Longrightarrow> grows L (L(k \<mapsto> r'))"
  by (auto simp: grows_def keeps_refl)

lemma grows_new: "L k = None \<Longrightarrow> grows L (L(k \<mapsto> r'))"
  by (auto simp: grows_def keeps_refl)

lemma new_comment_check_grows:
  "new_comment_check ct proj mr n L = (b, L') \<Longrightarrow> grows L L'"
  by (auto simp: new_comment_check_def grows_refl grows_new split: option.splits)

lemma followup_check_grows:
  "followup_check fromiso now k L = Inr (b, L') \<Longrightarrow> grows L L'"
  by (auto simp: followup_check_def grows_refl keeps_def intro!: grows_upd
           split: option.splits if_splits sum.splits)

lemma response_scan_grows:
  assumes "response_scan fromiso cfg proj mr revs n cs L = (err, L', out)"
  shows "grows L L'"
proof (cases "L (n_id n)")
  case None
  then have "snd (response_scan fromiso cfg proj mr revs n cs L) = (L, [])"
    by (rule response_scan_absent)
  with assms show ?thesis by (simp add: grows_refl)
next
  case (Some r)
  show ?thesis
  proof (cases "cr_responded r")
    case True
    with Some have "snd (response_scan fromiso cfg proj mr revs n cs L) = (L, [])"
      by (rule response_scan_responded)
    with assms show ?thesis by (simp add: grows_refl)
  next
    case False
    from response_scan_shape[OF assms Some False] Some False show ?thesis
      by (auto simp: grows_refl keeps_def intro!: grows_upd)
  qed
qed

lemma process_note_grows:
  "process_note fromiso cfg ct now proj mr d n st = (err, st', out) \<Longrightarrow> grows (snd st) (snd st')"
  by (auto simp: process_note_def Let_def grows_refl
           split: if_splits prod.splits sum.splits option.splits
           dest!: new_comment_check_grows followup_check_grows response_scan_grows
           intro: grows_trans)


lemma process_discussions_grows:
  assumes "process_discussions fromiso cfg ct now proj mr ds st = (err, st', out)"
  shows "grows (snd st) (snd st')"
proof -
  have inner: "grows (snd s) (snd s')"
    if "for_each (process_note fromiso cfg ct now proj mr d) d s = (e, s', out')"
    for d s e s' out'
    by (rule for_each_rel[where R="\<lambda>s s'. grows (snd s) (snd s')", OF _ _ _ that])
       (auto intro: grows_refl grows_trans dest: process_note_grows)
  show ?thesis
    using assms unfolding process_discussions_def
    by (rule for_each_rel[where R="\<lambda>s s'. grows (snd s) (snd s')", rotated 3])
       (auto intro: grows_refl grows_trans dest: inner)
qed

lemma process_mr_grows:
  "process_mr fromiso cfg ct now proj mr L = (err, L', out) \<Longrightarrow> grows L L'"
  by (auto simp: process_mr_def grows_refl split: prod.splits option.splits
           dest!: process_discussions_grows)

lemma check_for_new_comments_grows:
  assumes "check_for_new_comments fromiso cfg ct now projects L = (err, L', out)"
  shows "grows L L'"
proof -
  have inner: "grows s s'"
    if "for_each (process_mr fromiso cfg ct now proj) ms s = (e, s', out')"
    for proj ms s e s' out'
    by (rule for_each_rel[where R=grows, OF _ _ _ that])
       (auto intro: grows_refl grows_trans dest: process_mr_grows)
  show ?thesis
    using assms unfolding check_for_new_comments_def
    by (rule for_each_rel[where R=grows, rotated 3])
       (auto intro: grows_refl grows_trans dest: inner)
qed

lemma run_grows:
  "run fromiso cfg cycles L = (L', out) \<Longrightarrow> grows L L'"
proof (induction cycles arbitrary: L L' out)
  case Nil
  then show ?case by (simp add: grows_refl)
next
  case (Cons c cycles)
  then show ?case
    by (cases c) (auto split: prod.splits dest!: check_for_new_comments_grows intro: grows_trans)
qed

subsection \<open>Only the processed note's record is written\<close>

lemma new_comment_check_other:
  "new_comment_check ct proj mr n L = (b, L') \<Longrightarrow> k \<noteq> n_id n \<Longrightarrow> L' k = L k"
  by (auto simp: new_comment_check_def split: option.splits)

lemma followup_check_other:
  "followup_check fromiso now k L = Inr (b, L') \<Longrightarrow> k' \<noteq> k \<Longrightarrow> L' k' = L k'"
  by (auto simp: followup_check_def split: option.splits if_splits sum.splits)

lemma process_note_other:
  assumes "process_note fromiso cfg ct now proj mr d n st = (err, st', out)"
      and "k \<noteq> n_id n"
  shows "snd st' k = snd st k"
proof (cases "n_system n \<or> \<not> should_track_user cfg (n_author n)")
  case True
  with assms(1) show ?thesis
    by (auto simp: process_note_def Let_def split: prod.splits if_splits)
next
  case False
  obtain revs L where st: "st = (revs, L)" by (cases st) auto
  obtain b L1 where nc: "new_comment_check ct proj mr n L = (b, L1)"
    by (cases "new_comment_check ct proj mr n L") auto
  have L1: "L1 k = L k" using new_comment_check_other[OF nc assms(2)] .
  show ?thesis
  proof (cases "followup_check fromiso now (n_id n) L1")
    case (Inl e)
    with assms(1) False st nc L1 show ?thesis
      by (auto simp: process_note_def Let_def)
  next
    case (Inr p)
    obtain f L2 where p: "p = (f, L2)" by (cases p) auto
    have L2: "L2 k = L1 k" using followup_check_other[of fromiso now "n_id n" L1 f L2 k] Inr p assms(2)
      by simp
    obtain e3 L3 o3 where rs: "response_scan fromiso cfg proj mr
        (if n_author n \<noteq> mr_author mr then insert (n_author n) revs else revs) n d L2 = (e3, L3, o3)"
      by (cases "response_scan fromiso cfg proj mr
        (if n_author n \<noteq> mr_author mr then insert (n_author n) revs else revs) n d L2") auto
    have L3: "L3 k = L2 k" using response_scan_other[OF rs assms(2)] .
    from assms(1) False st nc Inr p rs have "snd st' = L3"
      by (auto simp: process_note_def Let_def split: option.splits)
    with L1 L2 L3 st show ?thesis by simp
  qed
qed

lemma process_note_records:
  assumes "process_note fromiso cfg ct now proj mr d n st = (err, st', out)"
      and "\<not> n_system n" and "should_track_user cfg (n_author n)"
  shows "\<exists>r'. snd st' (n_id n) = Some r' \<and>
           (snd st (n_id n) = None \<longrightarrow> keeps (new_record ct proj mr n) r')"
proof -
  obtain revs L where st: "st = (revs, L)" by (cases st) auto
  obtain b L1 where nc: "new_comment_check ct proj mr n L = (b, L1)"
    by (cases "new_comment_check ct proj mr n L") auto
  have L1: "\<exists>r1. L1 (n_id n) = Some r1 \<and>
      (L (n_id n) = None \<longrightarrow> r1 = new_record ct proj mr n)"
    using nc by (auto simp: new_comment_check_def split: option.splits)
  have "grows L1 (snd st')"
    using assms st nc
    by (auto simp: process_note_def Let_def grows_refl
             split: if_splits prod.splits sum.splits option.splits
             dest!: followup_check_grows response_scan_grows intro: grows_trans)
  with L1 st show ?thesis
    by (fastforce simp: grows_def)
qed

lemma process_notes_other:
  assumes "for_each (process_note fromiso cfg ct now proj mr d) ns s = (e, s', out)"
      and "k \<notin> set (map n_id ns)"
  shows "snd s' k = snd s k"
proof (rule for_each_rel[where R="\<lambda>s s'. snd s' k = snd s k", OF _ _ _ assms(1)])
  show "\<forall>x \<in> set ns. \<forall>s e s' out.
          process_note fromiso cfg ct now proj mr d x s = (e, s', out) \<longrightarrow> snd s' k = snd s k"
  proof (intro ballI allI impI)
    fix x s e s' out
    assume "x \<in> set ns" and p: "process_note fromiso cfg ct now proj mr d x s = (e, s', out)"
    with assms(2) have "k \<noteq> n_id x" by auto
    from process_note_other[OF p this] show "snd s' k = snd s k" .
  qed
qed simp_all

lemma process_discussions_other:
  assumes "process_discussions fromiso cfg ct now proj mr ds st = (err, st', out)"
      and "k \<notin> set (map n_id (concat ds))"
  shows "snd st' k = snd st k"
proof (rule for_each_rel[where R="\<lambda>s s'. snd s' k = snd s k",
        OF _ _ _ assms(1)[unfolded process_discussions_def]])
  show "\<forall>d \<in> set ds. \<forall>s e s' out.
          for_each (process_note fromiso cfg ct now proj mr d) d s = (e, s', out) \<longrightarrow>
          snd s' k = snd s k"
  proof (intro ballI allI impI)
    fix d s e s' out
    assume "d \<in> set ds"
       and p: "for_each (process_note fromiso cfg ct now proj mr d) d s = (e, s', out)"
    with assms(2) have "k \<notin> set (map n_id d)" by auto
    from process_notes_other[OF p this] show "snd s' k = snd s k" .
  qed
qed simp_all

lemma process_mr_other:
  "process_mr fromiso cfg ct now proj mr L = (err, L', out) \<Longrightarrow> k \<notin> mr_note_ids mr \<Longrightarrow> L' k = L k"
  by (auto simp: process_mr_def mr_note_ids_def split: prod.splits option.splits
           dest!: process_discussions_other)

lemma process_mrs_other:
  assumes "for_each (process_mr fromiso cfg ct now proj) ms s = (e, s', out)"
      and "\<forall>m \<in> set ms. k \<notin> mr_note_ids m"
  shows "s' k = s k"
proof (rule for_each_rel[where R="\<lambda>s s'. s' k = s k", OF _ _ _ assms(1)])
  show "\<forall>m \<in> set ms. \<forall>s e s' out.
          process_mr fromiso cfg ct now proj m s = (e, s', out) \<longrightarrow> s' k = s k"
    using assms(2) by (auto dest: process_mr_other)
qed simp_all

lemma check_for_new_comments_other:
  assumes "check_for_new_comments fromiso cfg ct now projects L = (err, L', out)"
      and "k \<notin> fetched_ids projects"
  shows "L' k = L k"
proof (rule for_each_rel[where R="\<lambda>s s'. s' k = s k",
        OF _ _ _ assms(1)[unfolded check_for_new_comments_def]])
  show "\<forall>proj \<in> set projects. \<forall>s e s' out.
          for_each (process_mr fromiso cfg ct now proj) (p_mrs proj) s = (e, s', out) \<longrightarrow>
          s' k = s k"
  proof (intro ballI allI impI)
    fix proj s e s' out
    assume "proj \<in> set projects"
       and p: "for_each (process_mr fromiso cfg ct now proj) (p_mrs proj) s = (e, s', out)"
    with assms(2) have "\<forall>m \<in> set (p_mrs proj). k \<notin> mr_note_ids m"
      by (auto simp: fetched_ids_def)
    from process_mrs_other[OF p this] show "s' k = s k" .
  qed
qed simp_all

lemma run_other:
  "run fromiso cfg cycles L = (L', out) \<Longrightarrow>
   \<forall>c \<in> set cycles. k \<notin> fetched_ids (snd (snd c)) \<Longrightarrow> L' k = L k"
proof (induction cycles arbitrary: L L' out)
  case Nil
  then show ?case by simp
next
  case (Cons c cycles)
  obtain ct now projects where c: "c = (ct, now, projects)" by (cases c) auto
  obtain e1 L1 o1 where ch: "check_for_new_comments fromiso cfg ct now projects L = (e1, L1, o1)"
    by (cases "check_for_new_comments fromiso cfg ct now projects L") auto
  obtain L2 o2 where r: "run fromiso cfg cycles L1 = (L2, o2)"
    by (cases "run fromiso cfg cycles L1") auto
  from Cons.prems(2) c have k1: "k \<notin> fetched_ids projects"
    and rest: "\<forall>c \<in> set cycles. k \<notin> fetched_ids (snd (snd c))" by auto
  have "L1 k = L k" by (rule check_for_new_comments_other[OF ch k1])
  moreover have "L2 k = L1 k" by (rule Cons.IH[OF r rest])
  moreover have "L' = L2" using Cons.prems(1) c ch r by simp
  ultimately show ?case by simp
qed

subsection \<open>The steps of one note\<close>

lemma new_comment_check_eq:
  "new_comment_check ct proj mr n L =
     (L (n_id n) = None,
      if L (n_id n) = None then L(n_id n \<mapsto> new_record ct proj mr n) else L)"
  by (auto simp: new_comment_check_def split: option.splits)

lemma followup_check_Inr:
  assumes "followup_check fromiso now k L = Inr (b, L')"
  shows "(b \<longleftrightarrow> (\<exists>r t. L k = Some r \<and> \<not> cr_responded r \<and> \<not> cr_followup_sent r \<and>
                  parse_created_at fromiso (cr_created_at r) = Inr (Naive t) \<and>
                  hours24 < now - t)) \<and>
         L' = (if b then L(k \<mapsto> (the (L k))\<lparr>cr_followup_sent := True\<rparr>) else L)"
proof (cases "L k")
  case None
  with assms show ?thesis by (simp add: followup_check_def)
next
  case (Some r)
  show ?thesis
  proof (cases "\<not> cr_responded r \<and> \<not> cr_followup_sent r")
    case False
    with assms Some show ?thesis by (auto simp: followup_check_def)
  next
    case True
    with assms Some obtain c where c: "parse_created_at fromiso (cr_created_at r) = Inr c"
      by (auto simp: followup_check_def split: sum.splits)
    with assms Some True obtain t where t: "c = Naive t"
      by (cases c) (auto simp: followup_check_def)
    with assms Some True c show ?thesis
      by (auto simp: followup_check_def split: if_splits)
  qed
qed

lemma response_scan_done:
  assumes "response_scan fromiso cfg proj mr revs n cs L = (None, L', out)"
      and "L (n_id n) = Some r" and "\<not> cr_responded r"
  shows "(L', out) =
     (case find (qualifies fromiso n) cs of
        None \<Rightarrow> (L, [])
      | Some c \<Rightarrow> (L(n_id n \<mapsto> r\<lparr>cr_responded := True, cr_responder := Some (n_author c)\<rparr>),
                   notify_reviewer cfg proj mr revs n c))"
proof -
  have "fst (response_scan fromiso cfg proj mr revs n cs L) = None" using assms(1) by simp
  with assms(2,3) have "snd (response_scan fromiso cfg proj mr revs n cs L) =
     (case find (qualifies fromiso n) cs of
        None \<Rightarrow> (L, [])
      | Some c \<Rightarrow> (L(n_id n \<mapsto> r\<lparr>cr_responded := True, cr_responder := Some (n_author c)\<rparr>),
                   notify_reviewer cfg proj mr revs n c))"
    by (rule response_scan_first)
  with assms(1) show ?thesis by simp
qed

lemma followup_check_responded:
  "followup_check fromiso now k L = Inr (b, L') \<Longrightarrow>
   map_option cr_responded (L' k') = map_option cr_responded (L k') \<and>
   map_option cr_responder (L' k') = map_option cr_responder (L k')"
  by (auto simp: followup_check_def split: option.splits if_splits sum.splits)

lemma notify_reviewer_cases:
  "notify_reviewer cfg proj mr revs n c = [] \<or>
   (\<exists>u. slack_user_map cfg (n_author n) = Some u \<and> u \<noteq> [] \<and>
        n_author c = mr_author mr \<and> n_author n \<in> revs \<and> should_track_user cfg (n_author n) \<and>
        notify_reviewer cfg proj mr revs n c =
          [Slack_post u (Author_responded (p_path proj) (mr_title mr) (n_author c)
                           (mr_iid mr) (n_id c))])"
  by (cases "slack_user_map cfg (n_author n)")
     (auto simp: notify_reviewer_def get_slack_user_id_def truthy_def send_slack_message_def
        Let_def)

lemma notify_mr_author_cases:
  "notify_mr_author cfg proj mr n is_new needs = [] \<or>
   (\<exists>u. slack_user_map cfg (mr_author mr) = Some u \<and> u \<noteq> [] \<and>
        (is_new \<or> needs) \<and> n_author n \<noteq> mr_author mr \<and> should_track_user cfg (mr_author mr) \<and>
        notify_mr_author cfg proj mr n is_new needs =
          [Slack_post u (format_comment_notification proj mr n needs)])"
  by (cases "slack_user_map cfg (mr_author mr)")
     (auto simp: notify_mr_author_def get_slack_user_id_def truthy_def send_slack_message_def
        Let_def)

lemma response_scan_out:
  assumes "response_scan fromiso cfg proj mr revs n cs L = (err, L', out)"
  shows "out = [] \<or>
         (\<exists>r c. L (n_id n) = Some r \<and> \<not> cr_responded r \<and> c \<in> set cs \<and>
                qualifies fromiso n c \<and>
                L' = L(n_id n \<mapsto> r\<lparr>cr_responded := True, cr_responder := Some (n_author c)\<rparr>) \<and>
                out = notify_reviewer cfg proj mr revs n c)"
proof (cases "L (n_id n)")
  case None
  then have "snd (response_scan fromiso cfg proj mr revs n cs L) = (L, [])"
    by (rule response_scan_absent)
  with assms show ?thesis by simp
next
  case (Some r)
  show ?thesis
  proof (cases "cr_responded r")
    case True
    with Some have "snd (response_scan fromiso cfg proj mr revs n cs L) = (L, [])"
      by (rule response_scan_responded)
    with assms show ?thesis by simp
  next
    case False
    from response_scan_shape[OF assms Some False] Some False show ?thesis by auto
  qed
qed

lemma response_scan_followup:
  assumes "response_scan fromiso cfg proj mr revs n cs L = (err, L', out)"
  shows "map_option cr_followup_sent (L' k) = map_option cr_followup_sent (L k)"
proof (cases "L (n_id n)")
  case None
  then have "snd (response_scan fromiso cfg proj mr revs n cs L) = (L, [])"
    by (rule response_scan_absent)
  with assms show ?thesis by simp
next
  case (Some r)
  show ?thesis
  proof (cases "cr_responded r")
    case True
    with Some have "snd (response_scan fromiso cfg proj mr revs n cs L) = (L, [])"
      by (rule response_scan_responded)
    with assms show ?thesis by simp
  next
    case False
    from response_scan_shape[OF assms Some False] Some show ?thesis by auto
  qed
qed

text \<open>The two ways in which the processing of a tracked, non-system note ends.\<close>

lemma process_note_tracked:
  assumes "process_note fromiso cfg ct now proj mr d n (revs, L) = (err, (revs', L'), out)"
      and "\<not> n_system n" and "should_track_user cfg (n_author n)"
  shows "revs' = (if n_author n \<noteq> mr_author mr then insert (n_author n) revs else revs) \<and>
         ((\<exists>e. followup_check fromiso now (n_id n) (snd (new_comment_check ct proj mr n L)) = Inl e \<and>
               err = Some e \<and> L' = snd (new_comment_check ct proj mr n L) \<and> out = []) \<or>
          (\<exists>needs L2 rs_out.
               followup_check fromiso now (n_id n) (snd (new_comment_check ct proj mr n L))
                 = Inr (needs, L2) \<and>
               response_scan fromiso cfg proj mr revs' n d L2 = (err, L', rs_out) \<and>
               out = rs_out @ (if err = None
                               then notify_mr_author cfg proj mr n (L (n_id n) = None) needs
                               else [])))"
  using assms
  by (auto simp: process_note_def Let_def new_comment_check_eq
           split: sum.splits prod.splits option.splits if_splits)

subsection \<open>Which note a message is about\<close>

lemma process_note_post_id:
  assumes p: "process_note fromiso cfg ct now proj mr d n st = (err, st', out)"
      and e: "e \<in> set out" and k: "comment_post_id e = Some k"
  shows "k = n_id n"
proof (cases "n_system n \<or> \<not> should_track_user cfg (n_author n)")
  case True
  with p e show ?thesis
    by (auto simp: process_note_def Let_def split: prod.splits if_splits)
next
  case False
  obtain revs L where st: "st = (revs, L)" by (cases st) auto
  obtain revs' L' where st': "st' = (revs', L')" by (cases st') auto
  from process_note_tracked[OF p[unfolded st st']] False
  consider "out = []"
    | needs L2 rs_out where
        "response_scan fromiso cfg proj mr revs' n d L2 = (err, L', rs_out)"
        "out = rs_out @ (if err = None
                         then notify_mr_author cfg proj mr n (L (n_id n) = None) needs else [])"
    by auto
  then show ?thesis
  proof cases
    case 1
    with e show ?thesis by simp
  next
    case 2
    from e 2(2) consider "e \<in> set rs_out"
      | "e \<in> set (notify_mr_author cfg proj mr n (L (n_id n) = None) needs)"
      by (auto split: if_splits)
    then show ?thesis
    proof cases
      case 1
      with response_scan_out[OF 2(1)] obtain c where "e \<in> set (notify_reviewer cfg proj mr revs' n c)"
        by auto
      with notify_reviewer_cases[of cfg proj mr revs' n c] k show ?thesis by auto
    next
      case 2
      with notify_mr_author_cases[of cfg proj mr n "L (n_id n) = None" needs] k show ?thesis
        by (auto simp: format_comment_notification_def split: if_splits)
    qed
  qed
qed

lemma process_discussions_post_id:
  assumes "process_discussions fromiso cfg ct now proj mr ds st = (err, st', out)"
      and "k \<notin> set (map n_id (concat ds))"
  shows "\<forall>e \<in> set out. comment_post_id e \<noteq> Some k"
proof (rule for_each_effects[where P="\<lambda>e. comment_post_id e \<noteq> Some k",
        OF _ assms(1)[unfolded process_discussions_def]])
  show "\<forall>d \<in> set ds. \<forall>s e s' out.
          for_each (process_note fromiso cfg ct now proj mr d) d s = (e, s', out) \<longrightarrow>
          (\<forall>ef \<in> set out. comment_post_id ef \<noteq> Some k)"
  proof (intro ballI allI impI)
    fix d s e s' out ef0
    assume d: "d \<in> set ds"
       and p: "for_each (process_note fromiso cfg ct now proj mr d) d s = (e, s', out)"
       and ef0: "ef0 \<in> set out"
    have "\<forall>ef \<in> set out. comment_post_id ef \<noteq> Some k"
    proof (rule for_each_effects[where P="\<lambda>e. comment_post_id e \<noteq> Some k", OF _ p])
      show "\<forall>x \<in> set d. \<forall>s e s' out.
              process_note fromiso cfg ct now proj mr d x s = (e, s', out) \<longrightarrow>
              (\<forall>ef \<in> set out. comment_post_id ef \<noteq> Some k)"
      proof (intro ballI allI impI)
        fix x s e s' out ef
        assume "x \<in> set d"
           and q: "process_note fromiso cfg ct now proj mr d x s = (e, s', out)"
           and ef: "ef \<in> set out"
        with d assms(2) have "k \<noteq> n_id x" by auto
        with process_note_post_id[OF q ef] show "comment_post_id ef \<noteq> Some k" by auto
      qed
    qed
    with ef0 show "comment_post_id ef0 \<noteq> Some k" by simp
  qed
qed

lemma process_mr_post_id:
  assumes "process_mr fromiso cfg ct now proj mr L = (err, L', out)"
      and "k \<notin> mr_note_ids mr"
  shows "\<forall>e \<in> set out. comment_post_id e \<noteq> Some k"
proof (cases "mr_details mr")
  case None
  with assms(1) show ?thesis by (simp add: process_mr_def)
next
  case (Some declared)
  obtain e1 st1 o1 where pd: "process_discussions fromiso cfg ct now proj mr (mr_discussions mr)
      (set declared, L) = (e1, st1, o1)"
    by (cases "process_discussions fromiso cfg ct now proj mr (mr_discussions mr) (set declared, L)")
       auto
  from process_discussions_post_id[OF pd] assms(2)
  have "\<forall>e \<in> set o1. comment_post_id e \<noteq> Some k" by (simp add: mr_note_ids_def)
  with assms(1) Some pd show ?thesis
    by (auto simp: process_mr_def save_tracked_comments_def split: option.splits prod.splits)
qed

lemma check_for_new_comments_post_id:
  assumes "check_for_new_comments fromiso cfg ct now projects L = (err, L', out)"
      and "k \<notin> fetched_ids projects"
  shows "\<forall>e \<in> set out. comment_post_id e \<noteq> Some k"
proof (rule for_each_effects[where P="\<lambda>e. comment_post_id e \<noteq> Some k",
        OF _ assms(1)[unfolded check_for_new_comments_def]])
  show "\<forall>proj \<in> set projects. \<forall>s e s' out.
          for_each (process_mr fromiso cfg ct now proj) (p_mrs proj) s = (e, s', out) \<longrightarrow>
          (\<forall>ef \<in> set out. comment_post_id ef \<noteq> Some k)"
  proof (intro ballI allI impI)
    fix proj s e s' out ef0
    assume pr: "proj \<in> set projects"
       and p: "for_each (process_mr fromiso cfg ct now proj) (p_mrs proj) s = (e, s', out)"
       and ef0: "ef0 \<in> set out"
    have "\<forall>ef \<in> set out. comment_post_id ef \<noteq> Some k"
    proof (rule for_each_effects[where P="\<lambda>e. comment_post_id e \<noteq> Some k", OF _ p])
      show "\<forall>m \<in> set (p_mrs proj). \<forall>s e s' out.
              process_mr fromiso cfg ct now proj m s = (e, s', out) \<longrightarrow>
              (\<forall>ef \<in> set out. comment_post_id ef \<noteq> Some k)"
      proof (intro ballI allI impI)
        fix m s e s' out ef
        assume m: "m \<in> set (p_mrs proj)"
           and q: "process_mr fromiso cfg ct now proj m s = (e, s', out)"
           and ef: "ef \<in> set out"
        from pr m assms(2) have "k \<notin> mr_note_ids m" by (auto simp: fetched_ids_def)
        from process_mr_post_id[OF q this] ef show "comment_post_id ef \<noteq> Some k" by auto
      qed
    qed
    with ef0 show "comment_post_id ef0 \<noteq> Some k" by simp
  qed
qed

lemma run_post_id:
  "run fromiso cfg cycles L = (L', out) \<Longrightarrow>
   \<forall>c \<in> set cycles. k \<notin> fetched_ids (snd (snd c)) \<Longrightarrow>
   \<forall>e \<in> set out. comment_post_id e \<noteq> Some k"
proof (induction cycles arbitrary: L L' out)
  case Nil
  then show ?case by simp
next
  case (Cons c cycles)
  obtain ct now projects where c: "c = (ct, now, projects)" by (cases c) auto
  obtain e1 L1 o1 where ch: "check_for_new_comments fromiso cfg ct now projects L = (e1, L1, o1)"
    by (cases "check_for_new_comments fromiso cfg ct now projects L") auto
  obtain L2 o2 where r: "run fromiso cfg cycles L1 = (L2, o2)"
    by (cases "run fromiso cfg cycles L1") auto
  from Cons.prems(2) c have k1: "k \<notin> fetched_ids projects"
    and rest: "\<forall>c \<in> set cycles. k \<notin> fetched_ids (snd (snd c))" by auto
  have "\<forall>e \<in> set o1. comment_post_id e \<noteq> Some k"
    by (rule check_for_new_comments_post_id[OF ch k1])
  moreover have "\<forall>e \<in> set o2. comment_post_id e \<noteq> Some k" by (rule Cons.IH[OF r rest])
  moreover have "out = o1 @ o2" using Cons.prems(1) c ch r by simp
  ultimately show ?case by auto
qed

subsection \<open>The kinds of the messages of one note\<close>

lemma notify_reviewer_kinds:
  "filter is_response_post (notify_reviewer cfg proj mr revs n c) = notify_reviewer cfg proj mr revs n c"
  "filter is_comment_post (notify_reviewer cfg proj mr revs n c) = []"
  "length (notify_reviewer cfg proj mr revs n c) \<le> 1"
  using notify_reviewer_cases[of cfg proj mr revs n c] by auto

lemma notify_mr_author_kinds:
  "filter is_response_post (notify_mr_author cfg proj mr n is_new needs) = []"
  "filter is_comment_post (notify_mr_author cfg proj mr n is_new needs)
     = notify_mr_author cfg proj mr n is_new needs"
  "length (notify_mr_author cfg proj mr n is_new needs) \<le> 1"
  using notify_mr_author_cases[of cfg proj mr n is_new needs]
  by (auto simp: format_comment_notification_def)

lemma response_scan_kinds:
  assumes "response_scan fromiso cfg proj mr revs n cs L = (err, L', out)"
  shows "filter is_response_post out = out" "filter is_comment_post out = []" "length out \<le> 1"
  using response_scan_out[OF assms] notify_reviewer_kinds by auto

text \<open>The follow-up flag is set by the processing of a note exactly when the check says so.\<close>

lemma followup_marked_iff:
  assumes fc: "followup_check fromiso now (n_id n) (snd (new_comment_check ct proj mr n L))
                 = Inr (needs, L2)"
      and rs: "response_scan fromiso cfg proj mr revs n d L2 = (err, L', out)"
  shows "followup_marked L L' (n_id n) \<longleftrightarrow> needs"
proof -
  let ?k = "n_id n"
  let ?L1 = "snd (new_comment_check ct proj mr n L)"
  from response_scan_followup[OF rs, of ?k]
  have same: "map_option cr_followup_sent (L' ?k) = map_option cr_followup_sent (L2 ?k)" .
  obtain r1 where r1: "?L1 ?k = Some r1"
    "case L ?k of None \<Rightarrow> \<not> cr_followup_sent r1 | Some r \<Rightarrow> r = r1"
    by (cases "L ?k") (auto simp: new_comment_check_eq new_record_def)
  show ?thesis
  proof (cases needs)
    case True
    with followup_check_Inr[OF fc] r1(1)
    have "\<not> cr_followup_sent r1" "L2 ?k = Some (r1\<lparr>cr_followup_sent := True\<rparr>)" by auto
    with same r1 True show ?thesis
      by (cases "L ?k"; cases "L' ?k") (auto simp: followup_marked_def)
  next
    case False
    with followup_check_Inr[OF fc] have "L2 = ?L1" by simp
    with same r1 False show ?thesis
      by (cases "L ?k"; cases "L' ?k") (auto simp: followup_marked_def)
  qed
qed

subsection \<open>The reviewer set\<close>

lemma process_note_reviewers:
  "process_note fromiso cfg ct now proj mr d n (revs, L) = (err, (revs', L'), out) \<Longrightarrow>
   revs' = (if \<not> n_system n \<and> n_author n \<noteq> mr_author mr
            then insert (n_author n) revs else revs)"
  by (auto simp: process_note_def Let_def
           split: if_splits prod.splits sum.splits option.splits)

lemma process_notes_reviewers:
  "for_each (process_note fromiso cfg ct now proj mr d) ns (revs, L) = (None, (revs', L'), out) \<Longrightarrow>
   revs' = revs \<union> scanned_authors mr ns"
proof (induction ns arbitrary: revs L out)
  case Nil
  then show ?case by (simp add: scanned_authors_def)
next
  case (Cons n ns)
  obtain e1 r1 L1 o1 where p: "process_note fromiso cfg ct now proj mr d n (revs, L) = (e1, (r1, L1), o1)"
    by (cases "process_note fromiso cfg ct now proj mr d n (revs, L)") auto
  with Cons.prems have e1: "e1 = None" by (cases e1) auto
  obtain e2 s2 o2 where f: "for_each (process_note fromiso cfg ct now proj mr d) ns (r1, L1) = (e2, s2, o2)"
    by (cases "for_each (process_note fromiso cfg ct now proj mr d) ns (r1, L1)") auto
  with Cons.prems p e1 have "e2 = None" "s2 = (revs', L')" by auto
  with f Cons.IH have "revs' = r1 \<union> scanned_authors mr ns" by simp
  with process_note_reviewers[OF p] show ?case by (auto simp: scanned_authors_def)
qed

lemma process_discussions_reviewers:
  "process_discussions fromiso cfg ct now proj mr ds (revs, L) = (None, (revs', L'), out) \<Longrightarrow>
   revs' = revs \<union> scanned_authors mr (concat ds)"
proof (induction ds arbitrary: revs L out)
  case Nil
  then show ?case by (simp add: scanned_authors_def process_discussions_def)
next
  case (Cons d ds)
  let ?inner = "for_each (process_note fromiso cfg ct now proj mr d) d (revs, L)"
  obtain e1 r1 L1 o1 where p: "?inner = (e1, (r1, L1), o1)" by (cases ?inner) auto
  with Cons.prems have e1: "e1 = None" by (cases e1) (auto simp: process_discussions_def)
  obtain e2 s2 o2 where f: "process_discussions fromiso cfg ct now proj mr ds (r1, L1) = (e2, s2, o2)"
    by (cases "process_discussions fromiso cfg ct now proj mr ds (r1, L1)") auto
  with Cons.prems p e1 have "e2 = None" "s2 = (revs', L')"
    by (auto simp: process_discussions_def)
  with f Cons.IH have "revs' = r1 \<union> scanned_authors mr (concat ds)" by simp
  with process_notes_reviewers[OF p[unfolded e1]] show ?case
    by (auto simp: scanned_authors_def)
qed

lemma notify_reviewer_indep:
  assumes "n_author n \<noteq> mr_author mr \<longrightarrow> n_author n \<in> A \<and> n_author n \<in> B"
      and "n_author c \<noteq> n_author n"
  shows "notify_reviewer cfg proj mr A n c = notify_reviewer cfg proj mr B n c"
  using assms by (auto simp: notify_reviewer_def)

lemma response_scan_indep:
  assumes "n_author n \<noteq> mr_author mr \<longrightarrow> n_author n \<in> A \<and> n_author n \<in> B"
  shows "response_scan fromiso cfg proj mr A n cs L = response_scan fromiso cfg proj mr B n cs L"
proof (induction cs arbitrary: L)
  case Nil
  then show ?case by simp
next
  case (Cons c cs)
  show ?case
  proof (cases "n_author c = n_author n")
    case True
    with Cons show ?thesis by (simp split: sum.splits)
  next
    case False
    with notify_reviewer_indep[OF assms, of c cfg proj]
    have "notify_reviewer cfg proj mr A n c = notify_reviewer cfg proj mr B n c" by simp
    with Cons show ?thesis by (simp add: fun_upd_def split: sum.splits option.splits)
  qed
qed

lemma process_note_indep:
  "fst (process_note fromiso cfg ct now proj mr d n (A, L)) =
     fst (process_note fromiso cfg ct now proj mr d n (B, L)) \<and>
   snd (fst (snd (process_note fromiso cfg ct now proj mr d n (A, L)))) =
     snd (fst (snd (process_note fromiso cfg ct now proj mr d n (B, L)))) \<and>
   snd (snd (process_note fromiso cfg ct now proj mr d n (A, L))) =
     snd (snd (process_note fromiso cfg ct now proj mr d n (B, L)))"
proof (cases "n_system n \<or> \<not> should_track_user cfg (n_author n)")
  case True
  then show ?thesis by (auto simp: process_note_def Let_def)
next
  case False
  let ?A = "if n_author n \<noteq> mr_author mr then insert (n_author n) A else A"
  let ?B = "if n_author n \<noteq> mr_author mr then insert (n_author n) B else B"
  obtain b L1 where nc: "new_comment_check ct proj mr n L = (b, L1)"
    by (cases "new_comment_check ct proj mr n L") auto
  show ?thesis
  proof (cases "followup_check fromiso now (n_id n) L1")
    case (Inl e)
    with False nc show ?thesis by (simp add: process_note_def Let_def)
  next
    case (Inr p)
    obtain needs L2 where p: "p = (needs, L2)" by (cases p) auto
    have rs: "response_scan fromiso cfg proj mr ?A n d L2 = response_scan fromiso cfg proj mr ?B n d L2"
      by (rule response_scan_indep) simp
    obtain e3 L3 o3 where r: "response_scan fromiso cfg proj mr ?B n d L2 = (e3, L3, o3)"
      by (cases "response_scan fromiso cfg proj mr ?B n d L2") auto
    from False nc Inr p rs r show ?thesis
      by (cases e3) (simp_all add: process_note_def Let_def)
  qed
qed

subsection \<open>A timestamp that does not parse\<close>





subsection \<open>What is written to the ledger file\<close>

lemma for_each_rel_effects:
  assumes refl: "\<And>s. R s s"
      and trans: "\<And>s s' s''. R s s' \<Longrightarrow> R s' s'' \<Longrightarrow> R s s''"
      and mono: "\<And>s s' ef. R s s' \<Longrightarrow> Q s' ef \<Longrightarrow> Q s ef"
      and body: "\<forall>x \<in> set xs. \<forall>s e s' out.
                  body x s = (e, s', out) \<longrightarrow> R s s' \<and> (\<forall>ef \<in> set out. Q s ef)"
      and res: "for_each body xs s = (err, s', out)"
  shows "\<forall>ef \<in> set out. Q s ef"
  using body res
proof (induction xs arbitrary: s err s' out)
  case Nil
  then show ?case by simp
next
  case (Cons x xs)
  obtain e1 s1 o1 where b: "body x s = (e1, s1, o1)" by (cases "body x s") auto
  have r1: "R s s1" and q1: "\<forall>ef \<in> set o1. Q s ef" using Cons.prems(1) b by auto
  have rest: "\<forall>x \<in> set xs. \<forall>s e s' out.
                body x s = (e, s', out) \<longrightarrow> R s s' \<and> (\<forall>ef \<in> set out. Q s ef)"
    using Cons.prems(1) by simp
  show ?case
  proof (cases e1)
    case None
    obtain e2 s2 o2 where f: "for_each body xs s1 = (e2, s2, o2)"
      by (cases "for_each body xs s1") auto
    have "\<forall>ef \<in> set o2. Q s1 ef" by (rule Cons.IH[OF rest f])
    with r1 have "\<forall>ef \<in> set o2. Q s ef" by (auto intro: mono)
    with q1 b None f Cons.prems(2) show ?thesis by auto
  next
    case (Some e)
    with q1 b Cons.prems(2) show ?thesis by simp
  qed
qed

lemma write_keeps_mono: "grows L L' \<Longrightarrow> write_keeps L' ef \<Longrightarrow> write_keeps L ef"
  by (cases ef) (auto intro: grows_trans)

lemma response_post_is_post: "is_response_post ef \<Longrightarrow> is_post ef"
  by (cases ef) auto

lemma comment_post_is_post: "is_comment_post ef \<Longrightarrow> is_post ef"
  by (cases ef) auto

lemma process_note_posts:
  assumes "process_note fromiso cfg ct now proj mr d n st = (err, st', out)"
  shows "\<forall>ef \<in> set out. is_post ef"
proof (cases "n_system n \<or> \<not> should_track_user cfg (n_author n)")
  case True
  with assms show ?thesis
    by (auto simp: process_note_def Let_def split: prod.splits if_splits)
next
  case False
  obtain revs L where st: "st = (revs, L)" by (cases st) auto
  obtain revs' L' where st': "st' = (revs', L')" by (cases st') auto
  from process_note_tracked[OF assms[unfolded st st']] False
  consider "out = []"
    | needs L2 rs_out where
        "response_scan fromiso cfg proj mr revs' n d L2 = (err, L', rs_out)"
        "out = rs_out @ (if err = None
                         then notify_mr_author cfg proj mr n (L (n_id n) = None) needs else [])"
    by auto
  then show ?thesis
  proof cases
    case 1
    then show ?thesis by simp
  next
    case 2
    have "\<forall>ef \<in> set rs_out. is_response_post ef"
      using response_scan_kinds(1)[OF 2(1)] by (simp add: filter_id_conv)
    then have "\<forall>ef \<in> set rs_out. is_post ef"
      by (auto intro: response_post_is_post)
    moreover have "\<forall>ef \<in> set (notify_mr_author cfg proj mr n (L (n_id n) = None) needs).
                     is_comment_post ef"
      using notify_mr_author_kinds(2)[of cfg proj mr n "L (n_id n) = None" needs]
      by (simp add: filter_id_conv)
    then have "\<forall>ef \<in> set (notify_mr_author cfg proj mr n (L (n_id n) = None) needs). is_post ef"
      by (auto intro: comment_post_is_post)
    ultimately show ?thesis using 2(2) by auto
  qed
qed

lemma process_discussions_posts:
  assumes "process_discussions fromiso cfg ct now proj mr ds st = (err, st', out)"
  shows "\<forall>ef \<in> set out. is_post ef"
proof (rule for_each_effects[where P=is_post, OF _ assms[unfolded process_discussions_def]])
  show "\<forall>d \<in> set ds. \<forall>s e s' out.
          for_each (process_note fromiso cfg ct now proj mr d) d s = (e, s', out) \<longrightarrow>
          (\<forall>ef \<in> set out. is_post ef)"
  proof (intro ballI allI impI)
    fix d s e s' out ef0
    assume p: "for_each (process_note fromiso cfg ct now proj mr d) d s = (e, s', out)"
       and ef0: "ef0 \<in> set out"
    have "\<forall>ef \<in> set out. is_post ef"
      by (rule for_each_effects[where P=is_post, OF _ p]) (auto dest: process_note_posts)
    with ef0 show "is_post ef0" by simp
  qed
qed

lemma process_mr_writes:
  assumes "process_mr fromiso cfg ct now proj mr L = (err, L', out)"
  shows "\<forall>ef \<in> set out. write_keeps L ef"
proof (cases "mr_details mr")
  case None
  with assms show ?thesis by (simp add: process_mr_def)
next
  case (Some declared)
  obtain e1 r1 L1 o1 where pd: "process_discussions fromiso cfg ct now proj mr (mr_discussions mr)
      (set declared, L) = (e1, (r1, L1), o1)"
    by (cases "process_discussions fromiso cfg ct now proj mr (mr_discussions mr) (set declared, L)")
       auto
  have posts: "\<forall>ef \<in> set o1. write_keeps L ef"
  proof
    fix ef assume "ef \<in> set o1"
    with process_discussions_posts[OF pd] have "is_post ef" by simp
    then show "write_keeps L ef" by (cases ef) auto
  qed
  have "grows L L1" using process_discussions_grows[OF pd] by simp
  with posts assms Some pd show ?thesis
    by (cases e1) (auto simp: process_mr_def save_tracked_comments_def)
qed

lemma check_for_new_comments_writes:
  assumes "check_for_new_comments fromiso cfg ct now projects L = (err, L', out)"
  shows "\<forall>ef \<in> set out. write_keeps L ef"
proof (rule for_each_rel_effects[where R=grows and Q=write_keeps,
        OF _ _ _ _ assms[unfolded check_for_new_comments_def]])
  show "\<forall>proj \<in> set projects. \<forall>s e s' out.
          for_each (process_mr fromiso cfg ct now proj) (p_mrs proj) s = (e, s', out) \<longrightarrow>
          grows s s' \<and> (\<forall>ef \<in> set out. write_keeps s ef)"
  proof (intro ballI allI impI)
    fix proj s e s' out
    assume p: "for_each (process_mr fromiso cfg ct now proj) (p_mrs proj) s = (e, s', out)"
    have "grows s s'"
      by (rule for_each_rel[where R=grows, OF _ _ _ p])
         (auto intro: grows_refl grows_trans dest: process_mr_grows)
    moreover have "\<forall>ef \<in> set out. write_keeps s ef"
      by (rule for_each_rel_effects[where R=grows and Q=write_keeps, OF _ _ _ _ p])
         (auto intro: grows_refl grows_trans write_keeps_mono
               dest: process_mr_grows process_mr_writes)
    ultimately show "grows s s' \<and> (\<forall>ef \<in> set out. write_keeps s ef)" by simp
  qed
qed (auto intro: grows_refl grows_trans write_keeps_mono)

lemma run_writes:
  "run fromiso cfg cycles L = (L', out) \<Longrightarrow> \<forall>ef \<in> set out. write_keeps L ef"
proof (induction cycles arbitrary: L L' out)
  case Nil
  then show ?case by simp
next
  case (Cons c cycles)
  obtain ct now projects where c: "c = (ct, now, projects)" by (cases c) auto
  obtain e1 L1 o1 where ch: "check_for_new_comments fromiso cfg ct now projects L = (e1, L1, o1)"
    by (cases "check_for_new_comments fromiso cfg ct now projects L") auto
  obtain L2 o2 where r: "run fromiso cfg cycles L1 = (L2, o2)"
    by (cases "run fromiso cfg cycles L1") auto
  have "\<forall>ef \<in> set o1. write_keeps L ef" by (rule check_for_new_comments_writes[OF ch])
  moreover have "\<forall>ef \<in> set o2. write_keeps L1 ef" by (rule Cons.IH[OF r])
  with check_for_new_comments_grows[OF ch] have "\<forall>ef \<in> set o2. write_keeps L ef"
    by (auto intro: write_keeps_mono)
  moreover have "out = o1 @ o2" using Cons.prems c ch r by simp
  ultimately show ?case by auto
qed

section \<open>The claims\<close>

text \<open>
  C6. A record is created by the processing of a tracked, non-system note whose id is
  absent from the ledger, and by nothing else: that processing adds the note's key and
  no other. No cycle removes a record or rewrites what was stored at its creation: over
  any number of cycles, however they end, every record stays in the ledger in memory,
  and every ledger handed to the database file holds all the keys the run started with.
\<close>

theorem ledger_only_grows:
  "(\<forall>k r. L k = Some r \<longrightarrow>
      (\<exists>r'. fst (run fromiso cfg cycles L) k = Some r' \<and>
            cr_project_id r' = cr_project_id r \<and> cr_mr_iid r' = cr_mr_iid r \<and>
            cr_author r' = cr_author r \<and> cr_created_at r' = cr_created_at r \<and>
            cr_notified_at r' = cr_notified_at r)) \<and>
   (\<forall>W. Db_write W \<in> set (snd (run fromiso cfg cycles L)) \<longrightarrow> dom L \<subseteq> dom W) \<and>
   (\<forall>err revs' L' out.
      process_note fromiso cfg ct now proj mr d n (revs, L) = (err, (revs', L'), out) \<and>
      \<not> n_system n \<and> should_track_user cfg (n_author n) \<longrightarrow>
      (\<exists>r'. L' (n_id n) = Some r' \<and>
            (L (n_id n) = None \<longrightarrow>
               cr_project_id r' = p_id proj \<and> cr_mr_iid r' = mr_iid mr \<and>
               cr_author r' = n_author n \<and> cr_created_at r' = n_created_at n \<and>
               cr_notified_at r' = ct)) \<and>
      dom L' = insert (n_id n) (dom L))"
proof (intro conjI allI impI)
  fix k r assume "L k = Some r"
  obtain L' out where run: "run fromiso cfg cycles L = (L', out)"
    by (cases "run fromiso cfg cycles L") auto
  from run_grows[OF run] \<open>L k = Some r\<close> obtain r' where "L' k = Some r'" "keeps r r'"
    by (auto simp: grows_def)
  with run show "\<exists>r'. fst (run fromiso cfg cycles L) k = Some r' \<and>
            cr_project_id r' = cr_project_id r \<and> cr_mr_iid r' = cr_mr_iid r \<and>
            cr_author r' = cr_author r \<and> cr_created_at r' = cr_created_at r \<and>
            cr_notified_at r' = cr_notified_at r"
    by (auto simp: keeps_def)
next
  fix W assume w: "Db_write W \<in> set (snd (run fromiso cfg cycles L))"
  obtain L' out where run: "run fromiso cfg cycles L = (L', out)"
    by (cases "run fromiso cfg cycles L") auto
  from run_writes[OF run] w run have "write_keeps L (Db_write W)" by auto
  then show "dom L \<subseteq> dom W" by (auto simp: grows_def)
next
  fix err revs' L' out
  assume a: "process_note fromiso cfg ct now proj mr d n (revs, L) = (err, (revs', L'), out) \<and>
      \<not> n_system n \<and> should_track_user cfg (n_author n)"
  from a process_note_records[of fromiso cfg ct now proj mr d n "(revs, L)" err "(revs', L')" out]
  show "\<exists>r'. L' (n_id n) = Some r' \<and>
            (L (n_id n) = None \<longrightarrow>
               cr_project_id r' = p_id proj \<and> cr_mr_iid r' = mr_iid mr \<and>
               cr_author r' = n_author n \<and> cr_created_at r' = n_created_at n \<and>
               cr_notified_at r' = ct)"
    by (auto simp: keeps_def new_record_def)
next
  fix err revs' L' out
  assume a: "process_note fromiso cfg ct now proj mr d n (revs, L) = (err, (revs', L'), out) \<and>
      \<not> n_system n \<and> should_track_user cfg (n_author n)"
  then have p: "process_note fromiso cfg ct now proj mr d n (revs, L) = (err, (revs', L'), out)"
    by simp
  have other: "L' k = L k" if "k \<noteq> n_id n" for k
    using process_note_other[OF p that] by simp
  have "grows L L'" using process_note_grows[OF p] by simp
  then have sub: "dom L \<subseteq> dom L'" by (auto simp: grows_def)
  from a process_note_records[OF p] have "n_id n \<in> dom L'" by auto
  with sub other show "dom L' = insert (n_id n) (dom L)"
    by (auto simp: dom_def)
qed

text \<open>
  Witness: a ledger holding the record of note 456789; twenty-five hours after the
  comment a cycle fetches the note again, with an answer of the merge request's author,
  whose note gets a record of its own.
\<close>

theorem ledger_only_grows_witness:
  "[(456789::int) \<mapsto> ex_record] 456789 = Some ex_record \<and>
   (\<exists>r'. fst (run ex_fromiso ex_cfg
              [(''2023-04-02T15:30:45'', now_25h, [ex_project [ex_thread1]])]
              [456789 \<mapsto> ex_record]) 456789 = Some r' \<and>
         cr_created_at r' = ''2023-04-01T14:30:45'' \<and>
         cr_notified_at r' = ''2023-04-01T15:30:45'') \<and>
   Db_write [456789 \<mapsto> ex_record\<lparr>cr_responded := True, cr_followup_sent := True,
                                   cr_responder := Some ''author1''\<rparr>,
             456790 \<mapsto> ex_record\<lparr>cr_author := ''author1'',
                                   cr_created_at := ''2023-04-01T15:00:00'',
                                   cr_notified_at := ''2023-04-02T15:30:45'',
                                   cr_followup_sent := True\<rparr>]
     \<in> set (snd (run ex_fromiso ex_cfg
                   [(''2023-04-02T15:30:45'', now_25h, [ex_project [ex_thread1]])]
                   [456789 \<mapsto> ex_record])) \<and>
   dom [(456789::int) \<mapsto> ex_record]
     \<subseteq> dom [456789 \<mapsto> ex_record\<lparr>cr_responded := True, cr_followup_sent := True,
                                   cr_responder := Some ''author1''\<rparr>,
             456790 \<mapsto> ex_record\<lparr>cr_author := ''author1'',
                                   cr_created_at := ''2023-04-01T15:00:00'',
                                   cr_notified_at := ''2023-04-02T15:30:45'',
                                   cr_followup_sent := True\<rparr>] \<and>
   dom (snd (fst (snd (process_note ex_fromiso ex_cfg ''2023-04-02T15:30:45'' now_25h
          (ex_project [ex_thread1]) (ex_mr [ex_thread1]) ex_thread1
          (ex_note 456790 ''author1'' ''2023-04-01T15:00:00'') ({}, [456789 \<mapsto> ex_record])))))
     = {456789, 456790}"
proof -
  let ?L = "[(456789::int) \<mapsto> ex_record]"
  let ?W = "[(456789::int) \<mapsto> ex_record\<lparr>cr_responded := True, cr_followup_sent := True,
                                   cr_responder := Some ''author1''\<rparr>,
             456790 \<mapsto> ex_record\<lparr>cr_author := ''author1'',
                                   cr_created_at := ''2023-04-01T15:00:00'',
                                   cr_notified_at := ''2023-04-02T15:30:45'',
                                   cr_followup_sent := True\<rparr>]"
  let ?cycles = "[(''2023-04-02T15:30:45'', now_25h, [ex_project [ex_thread1]])]"
  let ?m = "ex_note 456790 ''author1'' ''2023-04-01T15:00:00''"
  let ?p = "process_note ex_fromiso ex_cfg ''2023-04-02T15:30:45'' now_25h
          (ex_project [ex_thread1]) (ex_mr [ex_thread1]) ex_thread1 ?m ({}, ?L)"
  note t = ledger_only_grows[of ?L ex_fromiso ex_cfg ?cycles "''2023-04-02T15:30:45''" now_25h
      "ex_project [ex_thread1]" "ex_mr [ex_thread1]" ex_thread1 ?m "{}"]
  have h: "?L 456789 = Some ex_record" by simp
  from t[THEN conjunct1, rule_format, OF h]
  have c1: "\<exists>r'. fst (run ex_fromiso ex_cfg ?cycles ?L) 456789 = Some r' \<and>
         cr_created_at r' = ''2023-04-01T14:30:45'' \<and>
         cr_notified_at r' = ''2023-04-01T15:30:45''"
    by (auto simp: ex_record_def)
  have w: "Db_write ?W \<in> set (snd (run ex_fromiso ex_cfg ?cycles ?L))"
    by (simp add: step_defs ex_defs ex_record_def fun_upd_twist)
  from t[THEN conjunct2, THEN conjunct1, rule_format, OF w]
  have c2: "dom ?L \<subseteq> dom ?W" .
  have p: "?p = (fst ?p, (fst (fst (snd ?p)), snd (fst (snd ?p))), snd (snd ?p))" by simp
  have m: "\<not> n_system ?m" "should_track_user ex_cfg (n_author ?m)"
    by (simp_all add: should_track_user_def ex_defs)
  from t[THEN conjunct2, THEN conjunct2, rule_format, OF conjI[OF p conjI[OF m]]]
  have c3: "dom (snd (fst (snd ?p))) = {456789, 456790}"
    by (auto simp: ex_note_def)
  show ?thesis by (rule conjI[OF h conjI[OF c1 conjI[OF w conjI[OF c2 c3]]]])
qed

text \<open>
  C10. The follow-up check runs only for the notes that a cycle fetches. The record of a
  comment whose note no cycle fetches any more (its merge request is no longer open, or
  the note is no longer returned) is left as it is by any number of cycles, whatever
  their clock readings: its follow-up flag is never set, and no new-comment or reminder
  message about it is posted.
\<close>

theorem unfetched_comment_never_followed_up:
  assumes "\<forall>c \<in> set cycles. k \<notin> fetched_ids (snd (snd c))"
  shows "fst (run fromiso cfg cycles L) k = L k \<and>
         (\<forall>e \<in> set (snd (run fromiso cfg cycles L)). comment_post_id e \<noteq> Some k)"
proof -
  obtain L' out where r: "run fromiso cfg cycles L = (L', out)"
    by (cases "run fromiso cfg cycles L") auto
  from run_other[OF r assms] run_post_id[OF r assms] r show ?thesis by simp
qed

text \<open>
  Witness: the record of note 456789 is one hour old when its merge request is merged;
  the cycles twenty-five hours after its creation fetch another note only.
\<close>

theorem unfetched_comment_never_followed_up_witness:
  "456789 \<notin> fetched_ids [ex_project [[ex_note 456790 ''author1'' ''2023-04-01T15:00:00'']]] \<and>
   fst (run ex_fromiso ex_cfg
          [(''2023-04-02T15:30:45'', now_25h,
            [ex_project [[ex_note 456790 ''author1'' ''2023-04-01T15:00:00'']]])]
          [456789 \<mapsto> ex_record]) 456789 = Some ex_record \<and>
   \<not> cr_followup_sent ex_record"
proof -
  have h: "\<forall>c \<in> set [(''2023-04-02T15:30:45'', now_25h,
                 [ex_project [[ex_note 456790 ''author1'' ''2023-04-01T15:00:00'']]])].
      456789 \<notin> fetched_ids (snd (snd c))"
    by (simp add: fetched_ids_def mr_note_ids_def ex_project_def ex_mr_def ex_note_def)
  from unfetched_comment_never_followed_up[OF h, of ex_fromiso ex_cfg "[456789 \<mapsto> ex_record]"]
  have "fst (run ex_fromiso ex_cfg
          [(''2023-04-02T15:30:45'', now_25h,
            [ex_project [[ex_note 456790 ''author1'' ''2023-04-01T15:00:00'']]])]
          [456789 \<mapsto> ex_record]) 456789 = Some ex_record"
    by simp
  moreover have "456789 \<notin> fetched_ids
      [ex_project [[ex_note 456790 ''author1'' ''2023-04-01T15:00:00'']]]"
    using h by simp
  ultimately show ?thesis by (simp add: ex_record_def)
qed

text \<open>
  C1. The follow-up check on a timestamp as GitLab sends it. The note 456789 carries
  \<^verbatim>\<open>2023-04-01T14:30:45Z\<close>; the code replaces the \<^verbatim>\<open>Z\<close> by \<^verbatim>\<open>+00:00\<close>, which
  \<^verbatim>\<open>fromisoformat\<close> reads as an offset-aware datetime, and subtracts it from the naive
  \<^verbatim>\<open>datetime.now()\<close>. Twenty-five hours after the creation of the comment, with its
  record in the ledger, unanswered and without follow-up, the cycle ends with
  \<^verbatim>\<open>TypeError\<close>: the follow-up flag is not set and no reminder is posted. Started from
  an empty ledger, the cycles one hour and twenty-five hours after the creation leave the
  record without follow-up flag and post nothing at all.
\<close>

theorem followup_check_raises_on_Z_timestamp:
  "check_for_new_comments ex_fromiso ex_cfg ''2023-04-02T15:30:45'' now_25h
     [ex_project [[ex_note 456789 ''reviewer1'' ''2023-04-01T14:30:45Z'']]]
     [456789 \<mapsto> ex_record\<lparr>cr_created_at := ''2023-04-01T14:30:45Z''\<rparr>]
   = (Some TypeError,
      [456789 \<mapsto> ex_record\<lparr>cr_created_at := ''2023-04-01T14:30:45Z''\<rparr>], []) \<and>
   run ex_fromiso ex_cfg
     [(''2023-04-01T15:30:45'', now_1h,
       [ex_project [[ex_note 456789 ''reviewer1'' ''2023-04-01T14:30:45Z'']]]),
      (''2023-04-02T15:30:45'', now_25h,
       [ex_project [[ex_note 456789 ''reviewer1'' ''2023-04-01T14:30:45Z'']]])]
     Map.empty
   = ([456789 \<mapsto> ex_record\<lparr>cr_created_at := ''2023-04-01T14:30:45Z''\<rparr>], []) \<and>
   \<not> cr_followup_sent (ex_record\<lparr>cr_created_at := ''2023-04-01T14:30:45Z''\<rparr>)"
  by (simp add: step_defs ex_defs ex_record_def)

text \<open>
  C3. A non-system note whose author fails the user filter (so the allowlist is not
  empty) leaves the ledger as it is and posts nothing; only the reviewer set may gain
  its author. Yet the response scan reads every note of the discussion: when such a note
  \<open>m\<close> is the first qualifying response to a tracked note \<open>n\<close> whose record is
  not yet responded, the processing of \<open>n\<close> marks the record responded, with the
  author of \<open>m\<close> as responder.
\<close>

theorem untracked_author_still_responds:
  assumes "\<not> should_track_user cfg (n_author m)" and "\<not> n_system m"
  shows "process_note fromiso cfg ct now proj mr d' m (revs0, L0) =
           (None, (if n_author m \<noteq> mr_author mr then insert (n_author m) revs0 else revs0, L0), [])
         \<and>
         (\<forall>revs' L' out.
            process_note fromiso cfg ct now proj mr d n (revs, L) = (None, (revs', L'), out) \<and>
            \<not> n_system n \<and> should_track_user cfg (n_author n) \<and>
            (\<forall>r. L (n_id n) = Some r \<longrightarrow> \<not> cr_responded r) \<and>
            find (qualifies fromiso n) d = Some m \<longrightarrow>
            (\<exists>r'. L' (n_id n) = Some r' \<and> cr_responded r' \<and>
                  cr_responder r' = Some (n_author m)))"
proof (intro conjI allI impI)
  from assms show "process_note fromiso cfg ct now proj mr d' m (revs0, L0) =
      (None, (if n_author m \<noteq> mr_author mr then insert (n_author m) revs0 else revs0, L0), [])"
    by (simp add: process_note_def)
next
  fix revs' L' out
  assume a: "process_note fromiso cfg ct now proj mr d n (revs, L) = (None, (revs', L'), out) \<and>
            \<not> n_system n \<and> should_track_user cfg (n_author n) \<and>
            (\<forall>r. L (n_id n) = Some r \<longrightarrow> \<not> cr_responded r) \<and>
            find (qualifies fromiso n) d = Some m"
  then have p: "process_note fromiso cfg ct now proj mr d n (revs, L) = (None, (revs', L'), out)"
    and n: "\<not> n_system n" "should_track_user cfg (n_author n)"
    and fresh: "\<forall>r. L (n_id n) = Some r \<longrightarrow> \<not> cr_responded r"
    and first: "find (qualifies fromiso n) d = Some m"
    by simp_all
  let ?L1 = "snd (new_comment_check ct proj mr n L)"
  from process_note_tracked[OF p n] obtain needs L2 rs_out where
    fc: "followup_check fromiso now (n_id n) ?L1 = Inr (needs, L2)" and
    rs: "response_scan fromiso cfg proj mr revs' n d L2 = (None, L', rs_out)"
    by auto
  from fresh obtain r1 where r1: "?L1 (n_id n) = Some r1" "\<not> cr_responded r1"
    by (cases "L (n_id n)") (auto simp: new_comment_check_eq new_record_def)
  from followup_check_responded[OF fc, of "n_id n"] r1
  obtain r2 where r2: "L2 (n_id n) = Some r2" "\<not> cr_responded r2"
    by auto
  from response_scan_done[OF rs r2] first
  have "L' = L2(n_id n \<mapsto> r2\<lparr>cr_responded := True, cr_responder := Some (n_author m)\<rparr>)"
    by simp
  then show "\<exists>r'. L' (n_id n) = Some r' \<and> cr_responded r' \<and>
                  cr_responder r' = Some (n_author m)"
    by simp
qed

text \<open>
  Witness: the allowlist holds \<^verbatim>\<open>reviewer1\<close> only; the merge request's author
  \<^verbatim>\<open>author1\<close> answers the comment of \<^verbatim>\<open>reviewer1\<close> half an hour later.
\<close>

theorem untracked_author_still_responds_witness:
  "\<not> should_track_user ex_cfg_allow (n_author (ex_note 456790 ''author1'' ''2023-04-01T15:00:00'')) \<and>
   (\<exists>r'. snd (fst (snd (process_note ex_fromiso ex_cfg_allow ''2023-04-01T15:30:45'' now_1h
              (ex_project []) (ex_mr [])
              [ex_note 456789 ''reviewer1'' ''2023-04-01T14:30:45'',
               ex_note 456790 ''author1'' ''2023-04-01T15:00:00'']
              (ex_note 456789 ''reviewer1'' ''2023-04-01T14:30:45'') ({}, Map.empty)))) 456789
          = Some r' \<and> cr_responded r' \<and> cr_responder r' = Some ''author1'')"
proof -
  let ?n = "ex_note 456789 ''reviewer1'' ''2023-04-01T14:30:45''"
  let ?m = "ex_note 456790 ''author1'' ''2023-04-01T15:00:00''"
  let ?p = "process_note ex_fromiso ex_cfg_allow ''2023-04-01T15:30:45'' now_1h
              (ex_project []) (ex_mr []) [?n, ?m] ?n ({}, Map.empty)"
  have h1: "\<not> should_track_user ex_cfg_allow (n_author ?m)"
    by (simp add: should_track_user_def ex_defs)
  have h2: "\<not> n_system ?m" by (simp add: ex_defs)
  have ok: "fst ?p = None" by (simp add: step_defs ex_defs)
  then have p: "?p = (None, (fst (fst (snd ?p)), snd (fst (snd ?p))), snd (snd ?p))"
    by (cases ?p) auto
  have n: "\<not> n_system ?n" "should_track_user ex_cfg_allow (n_author ?n)"
    by (simp_all add: should_track_user_def ex_defs)
  have first: "find (qualifies ex_fromiso ?n) [?n, ?m] = Some ?m"
    by (simp add: qualifies_def step_defs ex_defs)
  from untracked_author_still_responds[OF h1 h2, THEN conjunct2, rule_format,
      of ex_fromiso "''2023-04-01T15:30:45''" now_1h "ex_project []" "ex_mr []" "[?n, ?m]" ?n
         "{}" Map.empty "fst (fst (snd ?p))" "snd (fst (snd ?p))" "snd (snd ?p)"]
    p n first
  have "\<exists>r'. snd (fst (snd ?p)) (n_id ?n) = Some r' \<and> cr_responded r' \<and>
             cr_responder r' = Some (n_author ?m)"
    by simp
  with h1 show ?thesis by (simp add: ex_note_def)
qed

text \<open>
  C4. The processing of one note posts at most one new-comment or reminder message. It
  is posted only if the note was newly observed (no record before) or its follow-up
  flag was set by this processing, the note's author is not the merge request's author,
  and the merge request's author passes the user filter; it goes to the Slack id of the
  merge request's author. It is the reminder exactly when the follow-up flag was set,
  also for a note that is newly observed and overdue at once.
\<close>

theorem comment_notification_conditions:
  assumes "process_note fromiso cfg ct now proj mr d n (revs, L) = (err, (revs', L'), out)"
  shows "length (filter is_comment_post out) \<le> 1 \<and>
         (\<forall>e \<in> set out. is_comment_post e \<longrightarrow>
            (L (n_id n) = None \<or> followup_marked L L' (n_id n)) \<and>
            n_author n \<noteq> mr_author mr \<and> should_track_user cfg (mr_author mr) \<and>
            (is_reminder_post e \<longleftrightarrow> followup_marked L L' (n_id n)) \<and>
            (\<exists>u. slack_user_map cfg (mr_author mr) = Some u \<and>
                 e = Slack_post u (format_comment_notification proj mr n
                                     (followup_marked L L' (n_id n)))))"
proof (cases "n_system n \<or> \<not> should_track_user cfg (n_author n)")
  case True
  with assms have "out = []"
    by (auto simp: process_note_def Let_def split: if_splits)
  then show ?thesis by simp
next
  case False
  from process_note_tracked[OF assms] False
  consider "out = []"
    | needs L2 rs_out where
        "followup_check fromiso now (n_id n) (snd (new_comment_check ct proj mr n L))
           = Inr (needs, L2)"
        "response_scan fromiso cfg proj mr revs' n d L2 = (err, L', rs_out)"
        "out = rs_out @ (if err = None
                         then notify_mr_author cfg proj mr n (L (n_id n) = None) needs else [])"
    by auto
  then show ?thesis
  proof cases
    case 1
    then show ?thesis by simp
  next
    case 2
    let ?post = "notify_mr_author cfg proj mr n (L (n_id n) = None) needs"
    have marked: "followup_marked L L' (n_id n) \<longleftrightarrow> needs"
      by (rule followup_marked_iff[OF 2(1) 2(2)])
    have len: "length (filter is_comment_post out) \<le> 1"
      using 2(3) response_scan_kinds(2)[OF 2(2)] notify_mr_author_kinds(2,3)[of cfg proj mr n "L (n_id n) = None" needs]
      by simp
    have each: "(L (n_id n) = None \<or> needs) \<and>
            n_author n \<noteq> mr_author mr \<and> should_track_user cfg (mr_author mr) \<and>
            (is_reminder_post e \<longleftrightarrow> needs) \<and>
            (\<exists>u. slack_user_map cfg (mr_author mr) = Some u \<and>
                 e = Slack_post u (format_comment_notification proj mr n needs))"
      if e: "e \<in> set out" "is_comment_post e" for e
    proof -
      have "e \<notin> set rs_out"
      proof
        assume "e \<in> set rs_out"
        with e(2) have "e \<in> set (filter is_comment_post rs_out)" by simp
        with response_scan_kinds(2)[OF 2(2)] show False by simp
      qed
      with e(1) 2(3) have "e \<in> set ?post" by (auto split: if_splits)
      with notify_mr_author_cases[of cfg proj mr n "L (n_id n) = None" needs]
      show ?thesis by (auto simp: format_comment_notification_def)
    qed
    from len each marked show ?thesis by blast
  qed
qed

text \<open>
  Witness: the comment of \<^verbatim>\<open>reviewer1\<close> is seen for the first time twenty-five hours
  after its creation: it is newly observed and overdue, and the one message is the
  reminder.
\<close>

theorem comment_notification_conditions_witness:
  "process_note ex_fromiso ex_cfg ''2023-04-02T15:30:45'' now_25h (ex_project []) (ex_mr [])
     [ex_note 456789 ''reviewer1'' ''2023-04-01T14:30:45'']
     (ex_note 456789 ''reviewer1'' ''2023-04-01T14:30:45'') ({}, Map.empty)
   = (None,
      ({''reviewer1''},
       [456789 \<mapsto> ex_record\<lparr>cr_notified_at := ''2023-04-02T15:30:45'',
                               cr_followup_sent := True\<rparr>]),
      [Slack_post ''U1''
         (Reminder ''group/project-name'' ''Fix authentication bug'' ''reviewer1''
            ''2023-04-01T14:30:45'' 123 456789 ''The authentication flow is broken.'')]) \<and>
   followup_marked Map.empty
     [456789 \<mapsto> ex_record\<lparr>cr_notified_at := ''2023-04-02T15:30:45'',
                             cr_followup_sent := True\<rparr>] 456789 \<and>
   should_track_user ex_cfg (mr_author (ex_mr []))"
proof -
  let ?n = "ex_note 456789 ''reviewer1'' ''2023-04-01T14:30:45''"
  let ?L' = "[456789 \<mapsto> ex_record\<lparr>cr_notified_at := ''2023-04-02T15:30:45'',
                                     cr_followup_sent := True\<rparr>]"
  let ?e = "Slack_post ''U1''
         (Reminder ''group/project-name'' ''Fix authentication bug'' ''reviewer1''
            ''2023-04-01T14:30:45'' 123 456789 ''The authentication flow is broken.'')"
  have p: "process_note ex_fromiso ex_cfg ''2023-04-02T15:30:45'' now_25h (ex_project [])
             (ex_mr []) [?n] ?n ({}, Map.empty) = (None, ({''reviewer1''}, ?L'), [?e])"
    by (simp add: step_defs ex_defs ex_record_def)
  have id: "n_id ?n = 456789" by (simp add: ex_note_def)
  from comment_notification_conditions[OF p, THEN conjunct2, rule_format, of ?e]
  have "followup_marked Map.empty ?L' 456789 \<and> should_track_user ex_cfg (mr_author (ex_mr []))"
    unfolding id by simp
  with p show ?thesis by simp
qed

text \<open>
  C5. The processing of one note posts at most one response message, and posts it only
  in the step that takes the note's record from not responded to responded: then the
  responder is the merge request's author, the note's author is in the reviewer set
  and passes the user filter, and the message goes to the Slack id of the note's
  author, about a qualifying response of the discussion. A record that is responded
  stays so over all later cycles, so no later processing posts a response message for
  it again.
\<close>

theorem response_notification_at_transition:
  assumes "process_note fromiso cfg ct now proj mr d n (revs, L) = (err, (revs', L'), out)"
  shows "length (filter is_response_post out) \<le> 1 \<and>
         (\<forall>e \<in> set out. is_response_post e \<longrightarrow>
            \<not> is_responded L (n_id n) \<and> is_responded L' (n_id n) \<and>
            (\<exists>r'. L' (n_id n) = Some r' \<and> cr_responder r' = Some (mr_author mr)) \<and>
            n_author n \<in> revs' \<and> should_track_user cfg (n_author n) \<and>
            (\<exists>u c. slack_user_map cfg (n_author n) = Some u \<and> c \<in> set d \<and>
                   qualifies fromiso n c \<and> n_author c = mr_author mr \<and>
                   e = Slack_post u (Author_responded (p_path proj) (mr_title mr)
                                       (mr_author mr) (mr_iid mr) (n_id c)))) \<and>
         (\<forall>k. is_responded L0 k \<longrightarrow> is_responded (fst (run fromiso cfg cycles L0)) k)"
proof (intro conjI)
  show "\<forall>k. is_responded L0 k \<longrightarrow> is_responded (fst (run fromiso cfg cycles L0)) k"
  proof (intro allI impI)
    fix k assume k: "is_responded L0 k"
    obtain L1 o1 where r: "run fromiso cfg cycles L0 = (L1, o1)"
      by (cases "run fromiso cfg cycles L0") auto
    from k obtain r0 where "L0 k = Some r0" "cr_responded r0"
      by (auto simp: is_responded_def split: option.splits)
    with run_grows[OF r] obtain r1 where "L1 k = Some r1" "cr_responded r1"
      by (auto simp: grows_def keeps_def)
    with r show "is_responded (fst (run fromiso cfg cycles L0)) k"
      by (simp add: is_responded_def)
  qed
next
  have "length (filter is_response_post out) \<le> 1 \<and>
         (\<forall>e \<in> set out. is_response_post e \<longrightarrow>
            \<not> is_responded L (n_id n) \<and> is_responded L' (n_id n) \<and>
            (\<exists>r'. L' (n_id n) = Some r' \<and> cr_responder r' = Some (mr_author mr)) \<and>
            n_author n \<in> revs' \<and> should_track_user cfg (n_author n) \<and>
            (\<exists>u c. slack_user_map cfg (n_author n) = Some u \<and> c \<in> set d \<and>
                   qualifies fromiso n c \<and> n_author c = mr_author mr \<and>
                   e = Slack_post u (Author_responded (p_path proj) (mr_title mr)
                                       (mr_author mr) (mr_iid mr) (n_id c))))"
  proof (cases "n_system n \<or> \<not> should_track_user cfg (n_author n)")
    case True
    with assms have "out = []"
      by (auto simp: process_note_def Let_def split: if_splits)
    then show ?thesis by simp
  next
    case False
    let ?L1 = "snd (new_comment_check ct proj mr n L)"
    from process_note_tracked[OF assms] False
    consider "out = []"
      | needs L2 rs_out where
          "followup_check fromiso now (n_id n) ?L1 = Inr (needs, L2)"
          "response_scan fromiso cfg proj mr revs' n d L2 = (err, L', rs_out)"
          "out = rs_out @ (if err = None
                           then notify_mr_author cfg proj mr n (L (n_id n) = None) needs else [])"
      by auto
    then show ?thesis
    proof cases
      case 1
      then show ?thesis by simp
    next
      case 2
      have resp: "filter is_response_post out = rs_out"
        using 2(3) response_scan_kinds(1)[OF 2(2)] notify_mr_author_kinds(1) by simp
      have len: "length (filter is_response_post out) \<le> 1"
        using resp response_scan_kinds(3)[OF 2(2)] by simp
      have each: "\<not> is_responded L (n_id n) \<and> is_responded L' (n_id n) \<and>
            (\<exists>r'. L' (n_id n) = Some r' \<and> cr_responder r' = Some (mr_author mr)) \<and>
            n_author n \<in> revs' \<and> should_track_user cfg (n_author n) \<and>
            (\<exists>u c. slack_user_map cfg (n_author n) = Some u \<and> c \<in> set d \<and>
                   qualifies fromiso n c \<and> n_author c = mr_author mr \<and>
                   e = Slack_post u (Author_responded (p_path proj) (mr_title mr)
                                       (mr_author mr) (mr_iid mr) (n_id c)))"
        if e: "e \<in> set out" "is_response_post e" for e
      proof -
        from e have "e \<in> set (filter is_response_post out)" by simp
        with resp have in_rs: "e \<in> set rs_out" by simp
        with response_scan_out[OF 2(2)] obtain r c where
          rc: "L2 (n_id n) = Some r" "\<not> cr_responded r" "c \<in> set d" "qualifies fromiso n c"
              "L' = L2(n_id n \<mapsto> r\<lparr>cr_responded := True, cr_responder := Some (n_author c)\<rparr>)"
              "rs_out = notify_reviewer cfg proj mr revs' n c"
          by auto
        from followup_check_responded[OF 2(1), of "n_id n"] rc(1,2)
        obtain r1 where r1: "?L1 (n_id n) = Some r1" "\<not> cr_responded r1"
          by (cases "?L1 (n_id n)") auto
        then have before: "\<not> is_responded L (n_id n)"
          by (cases "L (n_id n)") (auto simp: new_comment_check_eq is_responded_def)
        from in_rs rc(6) notify_reviewer_cases[of cfg proj mr revs' n c]
        obtain u where u: "slack_user_map cfg (n_author n) = Some u"
            "n_author c = mr_author mr" "n_author n \<in> revs'" "should_track_user cfg (n_author n)"
            "e = Slack_post u (Author_responded (p_path proj) (mr_title mr) (n_author c)
                                (mr_iid mr) (n_id c))"
          by auto
        from rc(5) u(2) have after: "is_responded L' (n_id n)"
            "\<exists>r'. L' (n_id n) = Some r' \<and> cr_responder r' = Some (mr_author mr)"
          by (simp_all add: is_responded_def)
        from before after u rc(3,4) show ?thesis by auto
      qed
      from len each show ?thesis by blast
    qed
  qed
  then show "length (filter is_response_post out) \<le> 1"
    and "\<forall>e \<in> set out. is_response_post e \<longrightarrow>
            \<not> is_responded L (n_id n) \<and> is_responded L' (n_id n) \<and>
            (\<exists>r'. L' (n_id n) = Some r' \<and> cr_responder r' = Some (mr_author mr)) \<and>
            n_author n \<in> revs' \<and> should_track_user cfg (n_author n) \<and>
            (\<exists>u c. slack_user_map cfg (n_author n) = Some u \<and> c \<in> set d \<and>
                   qualifies fromiso n c \<and> n_author c = mr_author mr \<and>
                   e = Slack_post u (Author_responded (p_path proj) (mr_title mr)
                                       (mr_author mr) (mr_iid mr) (n_id c)))"
    by blast+
qed

text \<open>
  Witness: \<^verbatim>\<open>author1\<close>, the author of the merge request, answers the comment of
  \<^verbatim>\<open>reviewer1\<close> half an hour later; the cycle one hour after the comment sees both.
\<close>

theorem response_notification_at_transition_witness:
  "process_note ex_fromiso ex_cfg ''2023-04-01T15:30:45'' now_1h (ex_project []) (ex_mr [])
     ex_thread1 (ex_note 456789 ''reviewer1'' ''2023-04-01T14:30:45'') ({}, Map.empty)
   = (None,
      ({''reviewer1''},
       [456789 \<mapsto> ex_record\<lparr>cr_responded := True, cr_responder := Some ''author1''\<rparr>]),
      [Slack_post ''U2'' (Author_responded ''group/project-name'' ''Fix authentication bug''
         ''author1'' 123 456790),
       Slack_post ''U1'' (New_comment ''group/project-name'' ''Fix authentication bug''
         ''reviewer1'' 123 456789 ''The authentication flow is broken.'')]) \<and>
   \<not> is_responded Map.empty (456789::int) \<and>
   is_responded [456789 \<mapsto> ex_record\<lparr>cr_responded := True, cr_responder := Some ''author1''\<rparr>]
     (456789::int) \<and>
   should_track_user ex_cfg ''reviewer1'' \<and>
   is_responded
     (fst (run ex_fromiso ex_cfg
             [(''2023-04-02T15:30:45'', now_25h, [ex_project [ex_thread1]])]
             [456789 \<mapsto> ex_record\<lparr>cr_responded := True, cr_responder := Some ''author1''\<rparr>]))
     456789"
proof -
  let ?n = "ex_note 456789 ''reviewer1'' ''2023-04-01T14:30:45''"
  let ?L' = "[(456789::int) \<mapsto> ex_record\<lparr>cr_responded := True,
                                            cr_responder := Some ''author1''\<rparr>]"
  let ?e = "Slack_post ''U2'' (Author_responded ''group/project-name''
              ''Fix authentication bug'' ''author1'' 123 456790)"
  let ?f = "Slack_post ''U1'' (New_comment ''group/project-name'' ''Fix authentication bug''
         ''reviewer1'' 123 456789 ''The authentication flow is broken.'')"
  let ?cycles = "[(''2023-04-02T15:30:45'', now_25h, [ex_project [ex_thread1]])]"
  have p: "process_note ex_fromiso ex_cfg ''2023-04-01T15:30:45'' now_1h (ex_project [])
             (ex_mr []) ex_thread1 ?n ({}, Map.empty) = (None, ({''reviewer1''}, ?L'), [?e, ?f])"
    by (simp add: step_defs ex_defs ex_record_def)
  have id: "n_id ?n = 456789" "n_author ?n = ''reviewer1''" by (simp_all add: ex_note_def)
  have e: "?e \<in> set [?e, ?f]" "is_response_post ?e" by simp_all
  note t = response_notification_at_transition[OF p, THEN conjunct2, THEN conjunct1,
      rule_format, OF e, unfolded id]
  from t have c2: "\<not> is_responded Map.empty (456789::int)" by (rule conjunct1)
  from t have c3: "is_responded ?L' 456789" by (elim conjE)
  from t have c4: "should_track_user ex_cfg ''reviewer1''" by (elim conjE)
  from response_notification_at_transition[OF p, THEN conjunct2, THEN conjunct2, rule_format,
      where ?L0.0="?L'" and cycles="?cycles" and k=456789, OF c3]
  have c5: "is_responded (fst (run ex_fromiso ex_cfg ?cycles ?L')) 456789" .
  show ?thesis by (rule conjI[OF p conjI[OF c2 conjI[OF c3 conjI[OF c4 c5]]]])
qed

text \<open>
  C2. A record that is responded stays responded, with the same responder, over any
  number of cycles. When the processing of a tracked note ends normally: a record that
  was responded is left as it is and no response message is posted; a record that was
  not responded becomes responded exactly if the discussion holds a qualifying response
  (a non-system note by another author with a strictly later timestamp), its responder
  is the author of the first of them in the discussion, and the response messages
  posted are the one decided for that first response, whatever qualifying responses
  follow it.
\<close>

theorem responded_set_once:
  "(\<forall>k r. L0 k = Some r \<and> cr_responded r \<longrightarrow>
      (\<exists>r'. fst (run fromiso cfg cycles L0) k = Some r' \<and> cr_responded r' \<and>
            cr_responder r' = cr_responder r)) \<and>
   (\<forall>revs' L' out.
      process_note fromiso cfg ct now proj mr d n (revs, L) = (None, (revs', L'), out) \<and>
      \<not> n_system n \<and> should_track_user cfg (n_author n) \<longrightarrow>
      (if is_responded L (n_id n)
       then L' = L \<and> filter is_response_post out = []
       else (case find (qualifies fromiso n) d of
               None \<Rightarrow> \<not> is_responded L' (n_id n) \<and> filter is_response_post out = []
             | Some c \<Rightarrow>
                 (\<exists>r'. L' (n_id n) = Some r' \<and> cr_responded r' \<and>
                       cr_responder r' = Some (n_author c)) \<and>
                 filter is_response_post out = notify_reviewer cfg proj mr revs' n c \<and>
                 length (filter is_response_post out) \<le> 1)))"
proof (intro conjI allI impI)
  fix k r assume a: "L0 k = Some r \<and> cr_responded r"
  obtain L1 o1 where r: "run fromiso cfg cycles L0 = (L1, o1)"
    by (cases "run fromiso cfg cycles L0") auto
  from run_grows[OF r] a obtain r1 where "L1 k = Some r1" "keeps r r1"
    by (auto simp: grows_def)
  with a r show "\<exists>r'. fst (run fromiso cfg cycles L0) k = Some r' \<and> cr_responded r' \<and>
            cr_responder r' = cr_responder r"
    by (auto simp: keeps_def)
next
  fix revs' L' out
  assume a: "process_note fromiso cfg ct now proj mr d n (revs, L) = (None, (revs', L'), out) \<and>
      \<not> n_system n \<and> should_track_user cfg (n_author n)"
  then have p: "process_note fromiso cfg ct now proj mr d n (revs, L) = (None, (revs', L'), out)"
    and n: "\<not> n_system n" "should_track_user cfg (n_author n)" by simp_all
  let ?k = "n_id n"
  let ?L1 = "snd (new_comment_check ct proj mr n L)"
  from process_note_tracked[OF p n] obtain needs L2 rs_out where
    fc: "followup_check fromiso now ?k ?L1 = Inr (needs, L2)" and
    rs: "response_scan fromiso cfg proj mr revs' n d L2 = (None, L', rs_out)" and
    out: "out = rs_out @ notify_mr_author cfg proj mr n (L ?k = None) needs"
    by auto
  have resp: "filter is_response_post out = rs_out"
    using out response_scan_kinds(1)[OF rs] notify_mr_author_kinds(1) by simp
  show "if is_responded L ?k
       then L' = L \<and> filter is_response_post out = []
       else (case find (qualifies fromiso n) d of
               None \<Rightarrow> \<not> is_responded L' ?k \<and> filter is_response_post out = []
             | Some c \<Rightarrow>
                 (\<exists>r'. L' ?k = Some r' \<and> cr_responded r' \<and>
                       cr_responder r' = Some (n_author c)) \<and>
                 filter is_response_post out = notify_reviewer cfg proj mr revs' n c \<and>
                 length (filter is_response_post out) \<le> 1)"
  proof (cases "is_responded L ?k")
    case True
    then obtain r where r: "L ?k = Some r" "cr_responded r"
      by (auto simp: is_responded_def split: option.splits)
    then have L1: "?L1 = L" by (simp add: new_comment_check_eq)
    with fc r have L2: "L2 = L" by (simp add: followup_check_def)
    from r L2 have "snd (response_scan fromiso cfg proj mr revs' n d L2) = (L2, [])"
      by (intro response_scan_responded) simp_all
    with rs L2 resp True show ?thesis by simp
  next
    case False
    then obtain r1 where r1: "?L1 ?k = Some r1" "\<not> cr_responded r1"
      by (cases "L ?k") (auto simp: new_comment_check_eq new_record_def is_responded_def)
    from followup_check_responded[OF fc, of ?k] r1
    obtain r2 where r2: "L2 ?k = Some r2" "\<not> cr_responded r2"
      by (cases "L2 ?k") auto
    from response_scan_done[OF rs r2] resp False notify_reviewer_kinds(3)[of cfg proj mr revs' n]
    show ?thesis
      using r2 by (auto simp: is_responded_def split: option.splits)
  qed
qed

text \<open>
  Witness: the comment of \<^verbatim>\<open>reviewer1\<close> is answered first by \<^verbatim>\<open>reviewer2\<close>, within
  the same second, then by the merge request's author: the responder is
  \<^verbatim>\<open>reviewer2\<close> and no response message is posted.
\<close>

theorem responded_set_once_witness:
  "process_note ex_fromiso ex_cfg ''2023-04-01T15:30:45'' now_1h (ex_project []) (ex_mr [])
     [ex_note 456789 ''reviewer1'' ''2023-04-01T14:30:45'',
      ex_note 456790 ''reviewer2'' ''2023-04-01T14:30:45.900000'',
      ex_note 456791 ''author1'' ''2023-04-01T15:00:00'']
     (ex_note 456789 ''reviewer1'' ''2023-04-01T14:30:45'') ({}, Map.empty)
   = (None,
      ({''reviewer1''},
       [456789 \<mapsto> ex_record\<lparr>cr_responded := True, cr_responder := Some ''reviewer2''\<rparr>]),
      [Slack_post ''U1'' (New_comment ''group/project-name'' ''Fix authentication bug''
         ''reviewer1'' 123 456789 ''The authentication flow is broken.'')]) \<and>
   find (qualifies ex_fromiso (ex_note 456789 ''reviewer1'' ''2023-04-01T14:30:45''))
     [ex_note 456789 ''reviewer1'' ''2023-04-01T14:30:45'',
      ex_note 456790 ''reviewer2'' ''2023-04-01T14:30:45.900000'',
      ex_note 456791 ''author1'' ''2023-04-01T15:00:00'']
     = Some (ex_note 456790 ''reviewer2'' ''2023-04-01T14:30:45.900000'') \<and>
   notify_reviewer ex_cfg (ex_project []) (ex_mr []) {''reviewer1''}
     (ex_note 456789 ''reviewer1'' ''2023-04-01T14:30:45'')
     (ex_note 456790 ''reviewer2'' ''2023-04-01T14:30:45.900000'') = [] \<and>
   (\<exists>r'. fst (run ex_fromiso ex_cfg
              [(''2023-04-02T15:30:45'', now_25h, [ex_project [ex_thread1]])]
              [456789 \<mapsto> ex_record\<lparr>cr_responded := True,
                                      cr_responder := Some ''reviewer2''\<rparr>]) 456789 = Some r' \<and>
         cr_responded r' \<and> cr_responder r' = Some ''reviewer2'')"
proof -
  let ?n = "ex_note 456789 ''reviewer1'' ''2023-04-01T14:30:45''"
  let ?a = "ex_note 456790 ''reviewer2'' ''2023-04-01T14:30:45.900000''"
  let ?b = "ex_note 456791 ''author1'' ''2023-04-01T15:00:00''"
  let ?L' = "[(456789::int) \<mapsto> ex_record\<lparr>cr_responded := True,
                                            cr_responder := Some ''reviewer2''\<rparr>]"
  let ?f = "Slack_post ''U1'' (New_comment ''group/project-name'' ''Fix authentication bug''
         ''reviewer1'' 123 456789 ''The authentication flow is broken.'')"
  let ?cycles = "[(''2023-04-02T15:30:45'', now_25h, [ex_project [ex_thread1]])]"
  have p: "process_note ex_fromiso ex_cfg ''2023-04-01T15:30:45'' now_1h (ex_project [])
             (ex_mr []) [?n, ?a, ?b] ?n ({}, Map.empty) = (None, ({''reviewer1''}, ?L'), [?f])"
    by (simp add: step_defs ex_defs ex_record_def)
  have n: "\<not> n_system ?n" "should_track_user ex_cfg (n_author ?n)"
    by (simp_all add: should_track_user_def ex_defs)
  have first: "find (qualifies ex_fromiso ?n) [?n, ?a, ?b] = Some ?a"
    by (simp add: qualifies_def step_defs ex_defs)
  have fresh: "\<not> is_responded Map.empty (n_id ?n)" by (simp add: is_responded_def)
  note t = responded_set_once[THEN conjunct2, rule_format, OF conjI[OF p conjI[OF n]]]
  from t fresh first
  have "filter is_response_post [?f] = notify_reviewer ex_cfg (ex_project []) (ex_mr [])
          {''reviewer1''} ?n ?a"
    by simp
  then have c3: "notify_reviewer ex_cfg (ex_project []) (ex_mr []) {''reviewer1''} ?n ?a = []"
    by simp
  have h: "?L' 456789 = Some (ex_record\<lparr>cr_responded := True,
                                         cr_responder := Some ''reviewer2''\<rparr>) \<and>
           cr_responded (ex_record\<lparr>cr_responded := True, cr_responder := Some ''reviewer2''\<rparr>)"
    by simp
  from responded_set_once[where ?L0.0="?L'" and fromiso=ex_fromiso and cfg=ex_cfg
      and cycles="?cycles", THEN conjunct1, rule_format, OF h]
  have c4: "\<exists>r'. fst (run ex_fromiso ex_cfg ?cycles ?L') 456789 = Some r' \<and>
         cr_responded r' \<and> cr_responder r' = Some ''reviewer2''"
    by simp
  show ?thesis by (rule conjI[OF p conjI[OF first conjI[OF c3 c4]]])
qed

text \<open>
  C7, as stated, fails: the reviewer set is not complete when a response notification is
  decided. The merge request has two discussions, the comment of \<^verbatim>\<open>reviewer1\<close> with
  the answer of the author, and a comment of \<^verbatim>\<open>reviewer2\<close>. When the first note is
  processed, from the declared reviewers (none), the response message for
  \<^verbatim>\<open>reviewer1\<close> is decided and posted while the reviewer set holds \<^verbatim>\<open>reviewer1\<close>
  only; in the words of the specification it holds \<^verbatim>\<open>reviewer2\<close> as well.
\<close>

theorem reviewer_set_incomplete_at_decision:
  "process_note ex_fromiso ex_cfg ''2023-04-01T15:30:45'' now_1h
     (ex_project [ex_thread1, ex_thread2]) (ex_mr [ex_thread1, ex_thread2]) ex_thread1
     (ex_note 456789 ''reviewer1'' ''2023-04-01T14:30:45'') (set [], Map.empty)
   = (None,
      ({''reviewer1''},
       [456789 \<mapsto> ex_record\<lparr>cr_responded := True, cr_responder := Some ''author1''\<rparr>]),
      [Slack_post ''U2'' (Author_responded ''group/project-name'' ''Fix authentication bug''
         ''author1'' 123 456790),
       Slack_post ''U1'' (New_comment ''group/project-name'' ''Fix authentication bug''
         ''reviewer1'' 123 456789 ''The authentication flow is broken.'')]) \<and>
   spec_reviewer_set (ex_mr [ex_thread1, ex_thread2]) [] = {''reviewer1'', ''reviewer2''} \<and>
   {''reviewer1''} \<noteq> spec_reviewer_set (ex_mr [ex_thread1, ex_thread2]) []"
  by (simp add: step_defs ex_defs ex_record_def spec_reviewer_set_def insert_commute)

text \<open>
  C7, amended. The reviewer set is built while the notes are scanned: each non-system
  note first adds its author, unless it is the merge request's author, and is then
  processed with the set as it stands; only when the last note of the merge request has
  been processed does the set hold, besides the reviewers it started from, the authors
  of all non-system notes other than the merge request's author. What the processing of
  a note does to the ledger and what it posts does not depend on the reviewer set it
  starts from.
\<close>

theorem reviewer_set_built_during_scan:
  "(\<forall>err revs' L' out.
      process_note fromiso cfg ct now proj mr d n (revs, L) = (err, (revs', L'), out) \<longrightarrow>
      revs' = (if \<not> n_system n \<and> n_author n \<noteq> mr_author mr
               then insert (n_author n) revs else revs)) \<and>
   (\<forall>revs' L' out.
      process_discussions fromiso cfg ct now proj mr ds (revs, L) = (None, (revs', L'), out) \<longrightarrow>
      revs' = revs \<union> scanned_authors mr (concat ds)) \<and>
   fst (process_note fromiso cfg ct now proj mr d n (A, L)) =
     fst (process_note fromiso cfg ct now proj mr d n (B, L)) \<and>
   snd (fst (snd (process_note fromiso cfg ct now proj mr d n (A, L)))) =
     snd (fst (snd (process_note fromiso cfg ct now proj mr d n (B, L)))) \<and>
   snd (snd (process_note fromiso cfg ct now proj mr d n (A, L))) =
     snd (snd (process_note fromiso cfg ct now proj mr d n (B, L)))"
  using process_note_reviewers[of fromiso cfg ct now proj mr d n revs L]
        process_discussions_reviewers[of fromiso cfg ct now proj mr ds revs L]
        process_note_indep[of fromiso cfg ct now proj mr d n A L B]
  by blast

text \<open>
  Witness: the two discussions above, scanned from the declared reviewers (none): at
  the end the reviewer set holds both reviewers.
\<close>

theorem reviewer_set_built_during_scan_witness:
  "fst (process_discussions ex_fromiso ex_cfg ''2023-04-01T15:30:45'' now_1h
          (ex_project [ex_thread1, ex_thread2]) (ex_mr [ex_thread1, ex_thread2])
          [ex_thread1, ex_thread2] ({}, Map.empty)) = None \<and>
   fst (fst (snd (process_discussions ex_fromiso ex_cfg ''2023-04-01T15:30:45'' now_1h
          (ex_project [ex_thread1, ex_thread2]) (ex_mr [ex_thread1, ex_thread2])
          [ex_thread1, ex_thread2] ({}, Map.empty)))) = {''reviewer1'', ''reviewer2''} \<and>
   fst (fst (snd (process_note ex_fromiso ex_cfg ''2023-04-01T15:30:45'' now_1h
          (ex_project [ex_thread1, ex_thread2]) (ex_mr [ex_thread1, ex_thread2]) ex_thread1
          (ex_note 456789 ''reviewer1'' ''2023-04-01T14:30:45'') ({}, Map.empty))))
     = {''reviewer1''}"
proof -
  let ?ds = "[ex_thread1, ex_thread2]"
  let ?n = "ex_note 456789 ''reviewer1'' ''2023-04-01T14:30:45''"
  let ?p = "process_discussions ex_fromiso ex_cfg ''2023-04-01T15:30:45'' now_1h
              (ex_project ?ds) (ex_mr ?ds) ?ds ({}, Map.empty)"
  let ?q = "process_note ex_fromiso ex_cfg ''2023-04-01T15:30:45'' now_1h
              (ex_project ?ds) (ex_mr ?ds) ex_thread1 ?n ({}, Map.empty)"
  have ok: "fst ?p = None" by (simp add: step_defs ex_defs)
  then have p: "?p = (None, (fst (fst (snd ?p)), snd (fst (snd ?p))), snd (snd ?p))"
    by (cases ?p) auto
  have sa: "scanned_authors (ex_mr ?ds) (concat ?ds) = {''reviewer1'', ''reviewer2''}"
    by (simp add: scanned_authors_def ex_defs insert_commute)
  from reviewer_set_built_during_scan[THEN conjunct2, THEN conjunct1, rule_format, OF p]
  have "fst (fst (snd ?p)) = {} \<union> scanned_authors (ex_mr ?ds) (concat ?ds)" .
  with sa have c2: "fst (fst (snd ?p)) = {''reviewer1'', ''reviewer2''}" by simp
  have q: "?q = (fst ?q, (fst (fst (snd ?q)), snd (fst (snd ?q))), snd (snd ?q))" by simp
  from reviewer_set_built_during_scan[THEN conjunct1, rule_format, OF q]
  have c3: "fst (fst (snd ?q)) = {''reviewer1''}"
    by (simp add: ex_defs)
  show ?thesis by (rule conjI[OF ok conjI[OF c2 c3]])
qed

text \<open>
  C8, as stated, fails: \<^verbatim>\<open>notified_at\<close> is written when the record is created, whether
  or not anything is posted. A first comment by the merge request's author itself gets
  a record whose \<^verbatim>\<open>notified_at\<close> is the cycle's \<^verbatim>\<open>current_time\<close>, and the cycle
  posts no message at all; it only writes the ledger file.
\<close>

theorem notified_at_without_notification:
  "check_for_new_comments ex_fromiso ex_cfg ''2023-04-01T15:30:45'' now_1h
     [ex_project [[ex_note 456790 ''author1'' ''2023-04-01T15:00:00'']]] Map.empty
   = (None,
      [456790 \<mapsto> ex_record\<lparr>cr_author := ''author1'', cr_created_at := ''2023-04-01T15:00:00''\<rparr>],
      [Db_write [456790 \<mapsto> ex_record\<lparr>cr_author := ''author1'',
                                         cr_created_at := ''2023-04-01T15:00:00''\<rparr>]]) \<and>
   cr_notified_at (ex_record\<lparr>cr_author := ''author1'', cr_created_at := ''2023-04-01T15:00:00''\<rparr>)
     = ''2023-04-01T15:30:45'' \<and>
   filter is_post
     [Db_write [456790 \<mapsto> ex_record\<lparr>cr_author := ''author1'',
                                       cr_created_at := ''2023-04-01T15:00:00''\<rparr>]] = []"
  by (simp add: step_defs ex_defs ex_record_def)

text \<open>
  C8, amended. \<^verbatim>\<open>notified_at\<close> holds the \<^verbatim>\<open>current_time\<close> of the cycle that created
  the record, the clock reading at the start of that cycle, whatever the cycle posts and
  however it ends; no later cycle changes it.
\<close>

theorem notified_at_is_cycle_start:
  "(\<forall>err revs' L' out.
      process_note fromiso cfg ct now proj mr d n (revs, L) = (err, (revs', L'), out) \<and>
      \<not> n_system n \<and> should_track_user cfg (n_author n) \<and> L (n_id n) = None \<longrightarrow>
      (\<exists>r'. L' (n_id n) = Some r' \<and> cr_notified_at r' = ct)) \<and>
   (\<forall>k r. L0 k = Some r \<longrightarrow>
      (\<exists>r'. fst (run fromiso cfg cycles L0) k = Some r' \<and>
            cr_notified_at r' = cr_notified_at r))"
proof (intro conjI allI impI)
  fix err revs' L' out
  assume a: "process_note fromiso cfg ct now proj mr d n (revs, L) = (err, (revs', L'), out) \<and>
      \<not> n_system n \<and> should_track_user cfg (n_author n) \<and> L (n_id n) = None"
  then have p: "process_note fromiso cfg ct now proj mr d n (revs, L) = (err, (revs', L'), out)"
    by simp
  from process_note_records[OF p] a
  show "\<exists>r'. L' (n_id n) = Some r' \<and> cr_notified_at r' = ct"
    by (auto simp: keeps_def new_record_def)
next
  fix k r assume a: "L0 k = Some r"
  obtain L1 o1 where r: "run fromiso cfg cycles L0 = (L1, o1)"
    by (cases "run fromiso cfg cycles L0") auto
  from run_grows[OF r] a obtain r1 where "L1 k = Some r1" "keeps r r1"
    by (auto simp: grows_def)
  with r show "\<exists>r'. fst (run fromiso cfg cycles L0) k = Some r' \<and>
            cr_notified_at r' = cr_notified_at r"
    by (auto simp: keeps_def)
qed

text \<open>
  Witness: the first comment of the merge request's author, for which nothing is posted.
\<close>

theorem notified_at_is_cycle_start_witness:
  "fst (process_note ex_fromiso ex_cfg ''2023-04-01T15:30:45'' now_1h (ex_project []) (ex_mr [])
          [ex_note 456790 ''author1'' ''2023-04-01T15:00:00'']
          (ex_note 456790 ''author1'' ''2023-04-01T15:00:00'') ({}, Map.empty)) = None \<and>
   snd (snd (process_note ex_fromiso ex_cfg ''2023-04-01T15:30:45'' now_1h (ex_project [])
          (ex_mr []) [ex_note 456790 ''author1'' ''2023-04-01T15:00:00'']
          (ex_note 456790 ''author1'' ''2023-04-01T15:00:00'') ({}, Map.empty))) = [] \<and>
   (\<exists>r'. snd (fst (snd (process_note ex_fromiso ex_cfg ''2023-04-01T15:30:45'' now_1h
              (ex_project []) (ex_mr []) [ex_note 456790 ''author1'' ''2023-04-01T15:00:00'']
              (ex_note 456790 ''author1'' ''2023-04-01T15:00:00'') ({}, Map.empty)))) 456790
            = Some r' \<and> cr_notified_at r' = ''2023-04-01T15:30:45'') \<and>
   (\<exists>r'. fst (run ex_fromiso ex_cfg
              [(''2023-04-02T15:30:45'', now_25h, [ex_project [ex_thread1]])]
              [456789 \<mapsto> ex_record]) 456789 = Some r' \<and>
         cr_notified_at r' = ''2023-04-01T15:30:45'')"
proof -
  let ?n = "ex_note 456790 ''author1'' ''2023-04-01T15:00:00''"
  let ?p = "process_note ex_fromiso ex_cfg ''2023-04-01T15:30:45'' now_1h (ex_project [])
              (ex_mr []) [?n] ?n ({}, Map.empty)"
  let ?L = "[(456789::int) \<mapsto> ex_record]"
  let ?cycles = "[(''2023-04-02T15:30:45'', now_25h, [ex_project [ex_thread1]])]"
  have ok: "fst ?p = None" "snd (snd ?p) = []" by (simp_all add: step_defs ex_defs)
  have p: "?p = (fst ?p, (fst (fst (snd ?p)), snd (fst (snd ?p))), snd (snd ?p))" by simp
  have n: "\<not> n_system ?n" "should_track_user ex_cfg (n_author ?n)" "Map.empty (n_id ?n) = None"
    by (simp_all add: should_track_user_def ex_defs)
  have id: "n_id ?n = 456790" by (simp add: ex_note_def)
  from notified_at_is_cycle_start[THEN conjunct1, rule_format, OF conjI[OF p conjI[OF n(1) conjI[OF n(2,3)]]]]
  have c3: "\<exists>r'. snd (fst (snd ?p)) 456790 = Some r' \<and> cr_notified_at r' = ''2023-04-01T15:30:45''"
    unfolding id .
  have h: "?L 456789 = Some ex_record" by simp
  from notified_at_is_cycle_start[where ?L0.0="?L" and fromiso=ex_fromiso and cfg=ex_cfg
      and cycles="?cycles", THEN conjunct2, rule_format, OF h]
  have c4: "\<exists>r'. fst (run ex_fromiso ex_cfg ?cycles ?L) 456789 = Some r' \<and>
         cr_notified_at r' = ''2023-04-01T15:30:45''"
    by (simp add: ex_record_def)
  show ?thesis by (rule conjI[OF ok(1) conjI[OF ok(2) conjI[OF c3 c4]]])
qed




end
